theory Spec2Isabelle
  imports Complex_Main
begin

section \<open>Data model (data\_model.py)\<close>

text \<open>
  The three tables the ingestion path touches. UUID primary keys are natural numbers,
  \<open>Numeric(20, 8)\<close> columns are rationals, and a timezone-aware \<open>DateTime\<close> is the
  number of milliseconds since the epoch it was built from
  (\<open>datetime.fromtimestamp(timestamp / 1000, timezone.utc)\<close> is one-to-one on the
  millisecond timestamps an exchange sends).
\<close>

datatype ExchangeType = BINANCE | COINBASE | KRAKEN | KUCOIN | BYBIT | OTHER

datatype TimeFrame =
    MINUTE_1 | MINUTE_3 | MINUTE_5 | MINUTE_15 | MINUTE_30
  | HOUR_1 | HOUR_2 | HOUR_4 | HOUR_6 | HOUR_8 | HOUR_12
  | DAY_1 | DAY_3 | WEEK_1 | MONTH_1

text \<open>\<open>TimeFrame(timeframe)\<close>: the enum member with that value; \<open>None\<close> stands for
  the \<open>ValueError\<close> Python raises for any other string.\<close>

definition TimeFrame_of :: "string \<Rightarrow> TimeFrame option" where
  "TimeFrame_of s =
    (if s = ''1m'' then Some MINUTE_1 else if s = ''3m'' then Some MINUTE_3
     else if s = ''5m'' then Some MINUTE_5 else if s = ''15m'' then Some MINUTE_15
     else if s = ''30m'' then Some MINUTE_30 else if s = ''1h'' then Some HOUR_1
     else if s = ''2h'' then Some HOUR_2 else if s = ''4h'' then Some HOUR_4
     else if s = ''6h'' then Some HOUR_6 else if s = ''8h'' then Some HOUR_8
     else if s = ''12h'' then Some HOUR_12 else if s = ''1d'' then Some DAY_1
     else if s = ''3d'' then Some DAY_3 else if s = ''1w'' then Some WEEK_1
     else if s = ''1M'' then Some MONTH_1 else None)"

record Exchange =
  e_id :: nat
  e_name :: string
  e_exchange_type :: ExchangeType
  e_timezone_name :: string

record Symbol =
  s_id :: nat
  s_exchange_id :: nat
  s_symbol :: string
  s_base_currency :: string
  s_quote_currency :: string
  s_is_active :: bool
  s_min_order_size :: "rat option"
  s_max_order_size :: "rat option"
  s_min_price :: "rat option"
  s_max_price :: "rat option"
  s_price_precision :: "rat option"
  s_quantity_precision :: "rat option"

record OHLCV =
  o_exchange_id :: nat
  o_symbol_id :: nat
  o_timeframe :: TimeFrame
  o_timestamp :: int
  o_open_price :: rat
  o_high_price :: rat
  o_low_price :: rat
  o_close_price :: rat
  o_volume :: rat

record database =
  exchanges :: "Exchange list"
  symbols :: "Symbol list"
  ohlcv :: "OHLCV list"

section \<open>The exchange gateway and the rest of the environment\<close>

text \<open>
  A row of a fetched page is either the six numbers
  \<open>[timestamp, open, high, low, close, volume]\<close> or \<open>Malformed\<close>, the empty row
  \<open>[]\<close>: subscripting it and unpacking it into six names both raise.
\<close>

datatype raw_candle = Candle int rat rat rat rat rat | Malformed

datatype fetch_result = Raises | Page "raw_candle list"

text \<open>One entry of \<open>exchange.fetch_markets()\<close>, with the keys the provider reads.\<close>

record market =
  m_active :: bool
  m_symbol :: string
  m_base :: string
  m_quote :: string
  m_amount_min :: "rat option"
  m_amount_max :: "rat option"
  m_price_min :: "rat option"
  m_price_max :: "rat option"
  m_precision_price :: "rat option"
  m_precision_amount :: "rat option"

text \<open>
  What the provider cannot decide by itself: \<open>fetch_ohlcv env n since\<close> is the answer of
  the \<open>n\<close>-th call of \<open>exchange.fetch_ohlcv\<close> of a run when asked for candles from
  \<open>since\<close> on; \<open>commit_raises env n\<close> says whether the \<open>n\<close>-th \<open>session.commit()\<close> of a
  session raises; \<open>now\<close> is the clock read by \<open>datetime.now\<close>.
\<close>

record env =
  exchange_name :: string
  fetch_ohlcv :: "nat \<Rightarrow> int \<Rightarrow> fetch_result"
  fetch_markets :: "market list option"
  commit_raises :: "nat \<Rightarrow> bool"
  now :: int

datatype exn = ValueError | IndexError | NetworkError | SQLAlchemyError

section \<open>Sessions (database\_handler.py)\<close>

text \<open>
  A session holds the committed tables and the tables as the open transaction sees them
  (queries flush pending rows first, the default of \<open>sessionmaker\<close>, so a lookup sees the
  rows added since the last commit). A commit that raises loses the rows added since the
  last successful commit and leaves the session unusable: until \<open>session.rollback()\<close> is
  called, every query and every commit on it raises (\<open>PendingRollbackError\<close>, one of the
  \<open>SQLAlchemyError\<close>s). \<open>needs_rollback\<close> records that state.
\<close>

record session =
  durable :: database
  working :: database
  needs_rollback :: bool
  commit_calls :: nat

definition session_maker :: "database \<Rightarrow> session" where
  "session_maker db = \<lparr>durable = db, working = db, needs_rollback = False, commit_calls = 0\<rparr>"

definition commit :: "env \<Rightarrow> session \<Rightarrow> bool \<times> session" where
  "commit env s =
    (if needs_rollback s then (False, s\<lparr>commit_calls := Suc (commit_calls s)\<rparr>)
     else if commit_raises env (commit_calls s)
     then (False, s\<lparr>working := durable s, needs_rollback := True,
                    commit_calls := Suc (commit_calls s)\<rparr>)
     else (True, s\<lparr>durable := working s, commit_calls := Suc (commit_calls s)\<rparr>))"

definition rollback :: "session \<Rightarrow> session" where
  "rollback s = s\<lparr>working := durable s, needs_rollback := False\<rparr>"

text \<open>\<open>get_session\<close>: commit when the body returns, roll back and re-raise when it
  raises. \<open>None\<close> is a body that never returns.\<close>

definition get_session ::
  "env \<Rightarrow> database \<Rightarrow> (session \<Rightarrow> ((exn + 'a) \<times> session) option) \<Rightarrow> ((exn + 'a) \<times> database) option"
where
  "get_session env db body =
    (case body (session_maker db) of
       None \<Rightarrow> None
     | Some (Inl e, s) \<Rightarrow> Some (Inl e, durable (rollback s))
     | Some (Inr r, s) \<Rightarrow>
         (case commit env s of
            (True, s') \<Rightarrow> Some (Inr r, durable s')
          | (False, s') \<Rightarrow> Some (Inl SQLAlchemyError, durable (rollback s'))))"

section \<open>Symbols and markets (crypto\_data\_providers.py)\<close>

definition fresh_id :: "nat list \<Rightarrow> nat" where
  "fresh_id ids = Suc (fold max ids 0)"

definition get_exchange_type :: "string \<Rightarrow> ExchangeType" where
  "get_exchange_type name =
    (if name = ''binance'' then BINANCE else if name = ''coinbase'' then COINBASE
     else if name = ''kraken'' then KRAKEN else if name = ''kucoin'' then KUCOIN
     else if name = ''bybit'' then BYBIT else OTHER)"

definition get_or_create_exchange :: "session \<Rightarrow> string \<Rightarrow> ExchangeType \<Rightarrow> Exchange \<times> session" where
  "get_or_create_exchange s name exchange_type =
    (case find (\<lambda>e. e_name e = name) (exchanges (working s)) of
       Some exchange \<Rightarrow> (exchange, s)
     | None \<Rightarrow>
         (let exchange = \<lparr>e_id = fresh_id (map e_id (exchanges (working s))), e_name = name,
                          e_exchange_type = exchange_type, e_timezone_name = ''UTC''\<rparr>
          in (exchange, s\<lparr>working := (working s)\<lparr>exchanges := exchanges (working s) @ [exchange]\<rparr>\<rparr>)))"

definition get_or_create_symbol ::
  "session \<Rightarrow> nat \<Rightarrow> string \<Rightarrow> string \<Rightarrow> string \<Rightarrow> market option \<Rightarrow> Symbol option \<times> session"
where
  "get_or_create_symbol s exchange_id symbol base quote symbol_info =
    (if length base > 10 \<or> length quote > 10 then (None, s)
     else
       (case find (\<lambda>y. s_exchange_id y = exchange_id \<and> s_symbol y = symbol) (symbols (working s)) of
          Some db_symbol \<Rightarrow> (Some db_symbol, s)
        | None \<Rightarrow>
            (let db_symbol =
                   \<lparr>s_id = fresh_id (map s_id (symbols (working s))), s_exchange_id = exchange_id,
                    s_symbol = symbol, s_base_currency = base, s_quote_currency = quote,
                    s_is_active = True,
                    s_min_order_size = Option.bind symbol_info m_amount_min,
                    s_max_order_size = Option.bind symbol_info m_amount_max,
                    s_min_price = Option.bind symbol_info m_price_min,
                    s_max_price = Option.bind symbol_info m_price_max,
                    s_price_precision = Option.bind symbol_info m_precision_price,
                    s_quantity_precision = Option.bind symbol_info m_precision_amount\<rparr>
             in (Some db_symbol,
                 s\<lparr>working := (working s)\<lparr>symbols := symbols (working s) @ [db_symbol]\<rparr>\<rparr>))))"

text \<open>The \<open>for market in markets\<close> loop of \<open>fetch_and_store_markets\<close>, with its counter.\<close>

fun store_markets :: "nat \<Rightarrow> market list \<Rightarrow> session \<times> nat \<Rightarrow> session \<times> nat" where
  "store_markets exchange_id [] (s, symbols_created) = (s, symbols_created)"
| "store_markets exchange_id (market # markets) (s, symbols_created) =
    (if m_active market then
       (case get_or_create_symbol s exchange_id (m_symbol market) (m_base market)
               (m_quote market) (Some market) of
          (Some symbol_obj, s') \<Rightarrow> store_markets exchange_id markets (s', Suc symbols_created)
        | (None, s') \<Rightarrow> store_markets exchange_id markets (s', symbols_created))
     else store_markets exchange_id markets (s, symbols_created))"

definition fetch_and_store_markets :: "env \<Rightarrow> database \<Rightarrow> ((exn + nat) \<times> database) option" where
  "fetch_and_store_markets env db =
    get_session env db (\<lambda>s.
      (case get_or_create_exchange s (exchange_name env) (get_exchange_type (exchange_name env)) of
         (exchange, s1) \<Rightarrow>
           (case fetch_markets env of
              None \<Rightarrow> Some (Inl NetworkError, s1)
            | Some markets \<Rightarrow>
                (case store_markets (e_id exchange) markets (s1, 0) of
                   (s2, symbols_created) \<Rightarrow> Some (Inr symbols_created, s2)))))"

definition get_exchange_id :: "env \<Rightarrow> session \<Rightarrow> nat option" where
  "get_exchange_id env s =
    map_option e_id (find (\<lambda>e. e_name e = exchange_name env) (exchanges (working s)))"

definition get_db_symbol :: "env \<Rightarrow> session \<Rightarrow> string \<Rightarrow> Symbol option" where
  "get_db_symbol env s symbol =
    find (\<lambda>y. Some (s_exchange_id y) = get_exchange_id env s \<and> s_symbol y = symbol)
      (symbols (working s))"

section \<open>The continuous backfill (crypto\_data\_providers.py)\<close>

text \<open>\<open>end_timestamp and timestamp >= end_timestamp\<close>: Python's \<open>and\<close> tests the
  truth value of \<open>end_timestamp\<close> first, and both \<open>None\<close> and \<open>0\<close> are false.\<close>

definition beyond_end :: "int option \<Rightarrow> int \<Rightarrow> bool" where
  "beyond_end end_timestamp timestamp =
    (case end_timestamp of None \<Rightarrow> False | Some e \<Rightarrow> e \<noteq> 0 \<and> timestamp \<ge> e)"

text \<open>The existence lookup \<open>session.query(OHLCV).filter_by(...).first()\<close>. It raises on a
  session that needs a rollback; on a usable session the store is taken to answer.\<close>

definition query_ohlcv :: "session \<Rightarrow> nat \<Rightarrow> TimeFrame \<Rightarrow> int \<Rightarrow> exn + OHLCV option" where
  "query_ohlcv s symbol_id tf record_datetime =
    (if needs_rollback s then Inl SQLAlchemyError
     else Inr (find (\<lambda>r. o_symbol_id r = symbol_id \<and> o_timeframe r = tf \<and>
                          o_timestamp r = record_datetime)
                 (ohlcv (working s))))"

definition add_ohlcv :: "session \<Rightarrow> OHLCV \<Rightarrow> session" where
  "add_ohlcv s r = s\<lparr>working := (working s)\<lparr>ohlcv := ohlcv (working s) @ [r]\<rparr>\<rparr>"

text \<open>
  The \<open>for ohlcv in candles\<close> loop, on the session, \<open>batch_records\<close> and
  \<open>all_timestamps\<close>. The first component of the result is the exception that left the
  loop, if any; what the loop had changed by then stays changed.
\<close>

fun process_candles ::
  "string \<Rightarrow> Symbol \<Rightarrow> int option \<Rightarrow> raw_candle list \<Rightarrow> session \<times> nat \<times> int list
    \<Rightarrow> exn option \<times> session \<times> nat \<times> int list"
where
  "process_candles timeframe db_symbol end_timestamp [] st = (None, st)"
| "process_candles timeframe db_symbol end_timestamp (Malformed # candles) st = (Some ValueError, st)"
| "process_candles timeframe db_symbol end_timestamp
      (Candle timestamp open_price high low close volume # candles) (s, batch_records, all_timestamps) =
    (if beyond_end end_timestamp timestamp then (None, (s, batch_records, all_timestamps))
     else
       (case TimeFrame_of timeframe of
          None \<Rightarrow> (Some ValueError, (s, batch_records, all_timestamps))
        | Some tf \<Rightarrow>
            (case query_ohlcv s (s_id db_symbol) tf timestamp of
               Inl x \<Rightarrow> (Some x, (s, batch_records, all_timestamps))
             | Inr (Some existing) \<Rightarrow>
                 process_candles timeframe db_symbol end_timestamp candles
                   (s, batch_records, all_timestamps @ [timestamp])
             | Inr None \<Rightarrow>
                 process_candles timeframe db_symbol end_timestamp candles
                   (add_ohlcv s
                      \<lparr>o_exchange_id = s_exchange_id db_symbol, o_symbol_id = s_id db_symbol,
                       o_timeframe = tf, o_timestamp = timestamp, o_open_price = open_price,
                       o_high_price = high, o_low_price = low, o_close_price = close,
                       o_volume = volume\<rparr>,
                    Suc batch_records, all_timestamps @ [timestamp]))))"

text \<open>The local variables of the \<open>while True\<close> loop, with two counters that only
  observe it: the calls of \<open>fetch_ohlcv\<close> made and the batch errors logged.\<close>

record backfill_state =
  since :: int
  total_records :: nat
  all_timestamps :: "int list"
  batch_count :: nat
  sess :: session
  fetch_calls :: nat
  errors_logged :: nat

datatype loop_ctl = Continue | Break

text \<open>The \<open>except Exception as batch_error\<close> branch.\<close>

definition batch_error :: "backfill_state \<Rightarrow> loop_ctl \<times> backfill_state" where
  "batch_error st =
    (Continue, st\<lparr>since := since st + 86400000, errors_logged := Suc (errors_logged st)\<rparr>)"

text \<open>\<open>end_timestamp and candles[0][0] >= end_timestamp\<close>: the first row is only
  subscripted when \<open>end_timestamp\<close> is true.\<close>

definition first_beyond_end :: "int option \<Rightarrow> raw_candle \<Rightarrow> exn + bool" where
  "first_beyond_end end_timestamp first =
    (case end_timestamp of
       None \<Rightarrow> Inr False
     | Some e \<Rightarrow>
         if e = 0 then Inr False
         else (case first of Malformed \<Rightarrow> Inl IndexError | Candle t _ _ _ _ _ \<Rightarrow> Inr (t \<ge> e)))"

text \<open>One pass through the body of the \<open>while True\<close> loop. The pause for the rate
  limit changes none of the variables and is left out. The handler of a batch error only
  logs and moves the cursor: it does not call \<open>session.rollback()\<close>.\<close>

definition backfill_iteration ::
  "env \<Rightarrow> string \<Rightarrow> Symbol \<Rightarrow> int option \<Rightarrow> backfill_state \<Rightarrow> loop_ctl \<times> backfill_state"
where
  "backfill_iteration env timeframe db_symbol end_timestamp st0 =
    (let st = st0\<lparr>fetch_calls := Suc (fetch_calls st0)\<rparr> in
     case fetch_ohlcv env (fetch_calls st0) (since st0) of
       Raises \<Rightarrow> batch_error st
     | Page candles \<Rightarrow>
         (case candles of
            [] \<Rightarrow> (Break, st)
          | first # _ \<Rightarrow>
              (case first_beyond_end end_timestamp first of
                 Inl e \<Rightarrow> batch_error st
               | Inr True \<Rightarrow> (Break, st)
               | Inr False \<Rightarrow>
                   (let st1 = st\<lparr>batch_count := Suc (batch_count st)\<rparr> in
                    case process_candles timeframe db_symbol end_timestamp candles
                           (sess st1, 0, all_timestamps st1) of
                      (Some e, (s, batch_records, ts)) \<Rightarrow>
                        batch_error (st1\<lparr>sess := s, all_timestamps := ts\<rparr>)
                    | (None, (s, batch_records, ts)) \<Rightarrow>
                        (let st2 = st1\<lparr>sess := s, all_timestamps := ts,
                                       total_records := total_records st1 + batch_records\<rparr> in
                         case last candles of
                           Malformed \<Rightarrow> batch_error st2
                         | Candle last_timestamp _ _ _ _ _ \<Rightarrow>
                             (let st3 = st2\<lparr>since := last_timestamp + 1\<rparr> in
                              if batch_count st3 mod 10 = 0 then
                                (case commit env (sess st3) of
                                   (True, s') \<Rightarrow> (Continue, st3\<lparr>sess := s'\<rparr>)
                                 | (False, s') \<Rightarrow> batch_error (st3\<lparr>sess := s'\<rparr>))
                              else (Continue, st3)))))))"

text \<open>The loop. Each pass makes one call of \<open>fetch_ohlcv\<close>; \<open>fuel\<close> bounds the number
  of passes, and \<open>None\<close> is a loop that has not left within that bound.\<close>

fun backfill_loop ::
  "nat \<Rightarrow> env \<Rightarrow> string \<Rightarrow> Symbol \<Rightarrow> int option \<Rightarrow> backfill_state \<Rightarrow> backfill_state option"
where
  "backfill_loop 0 env timeframe db_symbol end_timestamp st = None"
| "backfill_loop (Suc fuel) env timeframe db_symbol end_timestamp st =
    (case backfill_iteration env timeframe db_symbol end_timestamp st of
       (Break, st') \<Rightarrow> Some st'
     | (Continue, st') \<Rightarrow> backfill_loop fuel env timeframe db_symbol end_timestamp st')"

text \<open>The locals as the loop is entered: \<open>since\<close> is the parsed \<open>start_date\<close>.\<close>

definition initial_state :: "int \<Rightarrow> session \<Rightarrow> backfill_state" where
  "initial_state since0 s =
    \<lparr>since = since0, total_records = 0, all_timestamps = [], batch_count = 0,
     sess = s, fetch_calls = 0, errors_logged = 0\<rparr>"

text \<open>The block inside \<open>with self.get_session() as session\<close>: resolve the symbol, run
  the loop, commit, and compute the range. \<open>since\<close> and \<open>end_timestamp\<close> are the parsed
  \<open>start_date\<close> and \<open>end_date\<close> (\<open>None\<close> when no \<open>end_date\<close> was given).\<close>

definition backfill_body ::
  "nat \<Rightarrow> env \<Rightarrow> string \<Rightarrow> string \<Rightarrow> int \<Rightarrow> int option \<Rightarrow> session
    \<Rightarrow> ((exn + nat \<times> int \<times> int) \<times> session) option"
where
  "backfill_body fuel env symbol timeframe since0 end_timestamp s =
    (case get_db_symbol env s symbol of
       None \<Rightarrow> Some (Inl ValueError, s)
     | Some db_symbol \<Rightarrow>
         (case backfill_loop fuel env timeframe db_symbol end_timestamp (initial_state since0 s) of
            None \<Rightarrow> None
          | Some st \<Rightarrow>
              (case commit env (sess st) of
                 (False, s') \<Rightarrow> Some (Inl SQLAlchemyError, s')
               | (True, s') \<Rightarrow>
                   (if all_timestamps st \<noteq> []
                    then Some (Inr (total_records st, Min (set (all_timestamps st)),
                                    Max (set (all_timestamps st))), s')
                    else Some (Inr (total_records st, now env, now env), s')))))"

definition continuous_backfill_ohlcv ::
  "nat \<Rightarrow> env \<Rightarrow> string \<Rightarrow> string \<Rightarrow> int \<Rightarrow> int option \<Rightarrow> database
    \<Rightarrow> ((exn + nat \<times> int \<times> int) \<times> database) option"
where
  "continuous_backfill_ohlcv fuel env symbol timeframe since0 end_timestamp db =
    get_session env db (backfill_body fuel env symbol timeframe since0 end_timestamp)"

section \<open>What a run observes, from the gateway's answers alone\<close>

text \<open>
  The timestamps the \<open>for\<close> loop records for one page on a usable session: those of the
  rows before the first row that is malformed or has reached the end bound (none at all
  when \<open>TimeFrame(timeframe)\<close> raises), whether or not the store already holds them.
\<close>

fun observed_in_page :: "string \<Rightarrow> int option \<Rightarrow> raw_candle list \<Rightarrow> int list" where
  "observed_in_page timeframe end_timestamp [] = []"
| "observed_in_page timeframe end_timestamp (Malformed # candles) = []"
| "observed_in_page timeframe end_timestamp (Candle t _ _ _ _ _ # candles) =
    (if beyond_end end_timestamp t \<or> TimeFrame_of timeframe = None then []
     else t # observed_in_page timeframe end_timestamp candles)"

text \<open>Whether the \<open>for\<close> loop leaves a page by an exception of its own, on a usable
  session.\<close>

fun page_raises :: "string \<Rightarrow> int option \<Rightarrow> raw_candle list \<Rightarrow> bool" where
  "page_raises timeframe end_timestamp [] = False"
| "page_raises timeframe end_timestamp (Malformed # candles) = True"
| "page_raises timeframe end_timestamp (Candle t _ _ _ _ _ # candles) =
    (if beyond_end end_timestamp t then False
     else if TimeFrame_of timeframe = None then True
     else page_raises timeframe end_timestamp candles)"

text \<open>
  One pass of the loop on a usable session, as seen from outside the store: from the
  cursor, the number of fetches, the batch counter and the number of commits so far, the
  timestamps observed in the page and the same four values for the next pass; \<open>None\<close>
  when the loop ends here. \<open>observed\<close> chains the passes; it is what a run observes as long
  as its session stays usable, which is the case in every run that returns a result.
\<close>

definition observe_page ::
  "env \<Rightarrow> string \<Rightarrow> int option \<Rightarrow> int \<times> nat \<times> nat \<times> nat
    \<Rightarrow> (int list \<times> int \<times> nat \<times> nat \<times> nat) option"
where
  "observe_page env timeframe end_timestamp cur =
    (case cur of (cursor, n, b, c) \<Rightarrow>
      (case fetch_ohlcv env n cursor of
         Raises \<Rightarrow> Some ([], cursor + 86400000, Suc n, b, c)
       | Page candles \<Rightarrow>
           (case candles of
              [] \<Rightarrow> None
            | first # _ \<Rightarrow>
                (case first_beyond_end end_timestamp first of
                   Inl e \<Rightarrow> Some ([], cursor + 86400000, Suc n, b, c)
                 | Inr True \<Rightarrow> None
                 | Inr False \<Rightarrow>
                     Some (observed_in_page timeframe end_timestamp candles,
                       (if page_raises timeframe end_timestamp candles
                        then (cursor + 86400000, Suc n, Suc b, c)
                        else (case last candles of
                                Malformed \<Rightarrow> (cursor + 86400000, Suc n, Suc b, c)
                              | Candle t _ _ _ _ _ \<Rightarrow>
                                  if Suc b mod 10 = 0
                                  then ((if commit_raises env c then t + 1 + 86400000 else t + 1),
                                        Suc n, Suc b, Suc c)
                                  else (t + 1, Suc n, Suc b, c))))))))"

fun observed ::
  "nat \<Rightarrow> env \<Rightarrow> string \<Rightarrow> int option \<Rightarrow> int \<times> nat \<times> nat \<times> nat \<Rightarrow> int list option"
where
  "observed 0 env timeframe end_timestamp cur = None"
| "observed (Suc fuel) env timeframe end_timestamp cur =
    (case observe_page env timeframe end_timestamp cur of
       None \<Rightarrow> Some []
     | Some (ts, cur') \<Rightarrow> map_option ((@) ts) (observed fuel env timeframe end_timestamp cur'))"

text \<open>The four values of \<open>observe_page\<close> in a loop state.\<close>

definition cursor_of :: "backfill_state \<Rightarrow> int \<times> nat \<times> nat \<times> nat" where
  "cursor_of st = (since st, fetch_calls st, batch_count st, commit_calls (sess st))"

text \<open>A candle with this timestamp is visible to the existence check of the loop.\<close>

definition present :: "string \<Rightarrow> Symbol \<Rightarrow> database \<Rightarrow> int \<Rightarrow> bool" where
  "present timeframe db_symbol db t =
    (case TimeFrame_of timeframe of
       None \<Rightarrow> False
     | Some tf \<Rightarrow>
         find (\<lambda>r. o_symbol_id r = s_id db_symbol \<and> o_timeframe r = tf \<and> o_timestamp r = t)
           (ohlcv db) \<noteq> None)"

section \<open>Preconditions on the gateway\<close>

text \<open>Every candle of a page has a timestamp at or after the \<open>since\<close> it was asked for.\<close>

definition gateway_from_since :: "env \<Rightarrow> bool" where
  "gateway_from_since env =
    (\<forall>n cursor candles t a b c d e.
       fetch_ohlcv env n cursor = Page candles \<and> Candle t a b c d e \<in> set candles \<longrightarrow> cursor \<le> t)"


text \<open>A market that \<open>fetch_and_store_markets\<close> hands on and \<open>get_or_create_symbol\<close>
  accepts.\<close>

definition storable :: "market \<Rightarrow> bool" where
  "storable m = (m_active m \<and> length (m_base m) \<le> 10 \<and> length (m_quote m) \<le> 10)"

section \<open>Example inputs\<close>

definition example_symbol :: Symbol where
  "example_symbol =
    \<lparr>s_id = 1, s_exchange_id = 1, s_symbol = ''BTC/USDT'', s_base_currency = ''BTC'',
     s_quote_currency = ''USDT'', s_is_active = True, s_min_order_size = None,
     s_max_order_size = None, s_min_price = None, s_max_price = None,
     s_price_precision = None, s_quantity_precision = None\<rparr>"

definition example_db :: database where
  "example_db =
    \<lparr>exchanges = [\<lparr>e_id = 1, e_name = ''binance'', e_exchange_type = BINANCE,
                   e_timezone_name = ''UTC''\<rparr>],
     symbols = [example_symbol], ohlcv = []\<rparr>"

definition candle_at :: "int \<Rightarrow> raw_candle" where
  "candle_at t = Candle t 1 2 1 2 5"

text \<open>A gateway that answers its first \<open>k\<close> calls with the two candles at \<open>since\<close> and
  \<open>since + 1\<close>, and every later call with the empty page.\<close>

definition example_gateway :: "nat \<Rightarrow> nat \<Rightarrow> int \<Rightarrow> fetch_result" where
  "example_gateway k n cursor =
    (if n < k then Page [candle_at cursor, candle_at (cursor + 1)] else Page [])"

definition example_market :: "bool \<Rightarrow> string \<Rightarrow> string \<Rightarrow> market" where
  "example_market active base quote =
    \<lparr>m_active = active, m_symbol = base @ ''/'' @ quote, m_base = base, m_quote = quote,
     m_amount_min = None, m_amount_max = None, m_price_min = None, m_price_max = None,
     m_precision_price = None, m_precision_amount = None\<rparr>"

definition example_env :: "nat \<Rightarrow> (nat \<Rightarrow> bool) \<Rightarrow> env" where
  "example_env k failing =
    \<lparr>exchange_name = ''binance'', fetch_ohlcv = example_gateway k,
     fetch_markets = Some [example_market True ''ETH'' ''USDT'', example_market False ''XRP'' ''USDT'',
                           example_market True ''LONGCURRENCY'' ''USDT''],
     commit_raises = failing, now = 99\<rparr>"

section \<open>Symbol resolution\<close>

text \<open>
  Claim C9. When the symbol has no row for the provider's exchange,
  \<open>continuous_backfill_ohlcv\<close> raises \<open>ValueError\<close> to its caller and leaves the
  database as it was. This holds whatever the gateway and the store would have answered
  and for every bound on the number of loop passes, zero included: the error is raised
  before the loop is entered, so before any call of \<open>fetch_ohlcv\<close>.
\<close>

theorem unresolved_symbol_aborts:
  assumes "get_db_symbol env (session_maker db) symbol = None"
  shows "continuous_backfill_ohlcv fuel (env\<lparr>fetch_ohlcv := gateway, commit_raises := failing\<rparr>)
           symbol timeframe since0 end_timestamp db = Some (Inl ValueError, db)"
  using assms
  by (simp add: continuous_backfill_ohlcv_def get_session_def backfill_body_def rollback_def
      session_maker_def get_db_symbol_def get_exchange_id_def)

theorem unresolved_symbol_aborts_witness:
  "get_db_symbol (example_env 3 (\<lambda>n. False)) (session_maker example_db) ''DOGE/USDT'' = None \<and>
   continuous_backfill_ohlcv 0
     ((example_env 3 (\<lambda>n. False))\<lparr>fetch_ohlcv := example_gateway 3, commit_raises := (\<lambda>n. False)\<rparr>)
     ''DOGE/USDT'' ''1h'' 0 None example_db = Some (Inl ValueError, example_db)"
proof -
  have h: "get_db_symbol (example_env 3 (\<lambda>n. False)) (session_maker example_db) ''DOGE/USDT'' = None"
    by code_simp
  from unresolved_symbol_aborts [OF h] h show ?thesis by simp
qed

section \<open>Markets\<close>

lemma get_or_create_symbol_effect:
  assumes "get_or_create_symbol s x symb base quote info = (r, s')"
  shows "durable s' = durable s \<and> commit_calls s' = commit_calls s \<and>
         needs_rollback s' = needs_rollback s \<and>
         exchanges (working s') = exchanges (working s) \<and> ohlcv (working s') = ohlcv (working s) \<and>
         (r = None \<longrightarrow> s' = s \<and> (length base > 10 \<or> length quote > 10)) \<and>
         (\<forall>y. r = Some y \<longrightarrow> length base \<le> 10 \<and> length quote \<le> 10 \<and> y \<in> set (symbols (working s')) \<and>
               s_exchange_id y = x \<and> s_symbol y = symb \<and>
               (symbols (working s') = symbols (working s) \<or>
                (symbols (working s') = symbols (working s) @ [y] \<and> s_base_currency y = base \<and> s_quote_currency y = quote)))"
  using assms
  by (auto simp: get_or_create_symbol_def Let_def find_Some_iff split: if_splits option.splits)

lemma store_markets_spec:
  assumes "store_markets x ms (s, n) = (s', n')"
  shows "n' = n + length (filter storable ms) \<and>
         durable s' = durable s \<and> commit_calls s' = commit_calls s \<and>
         needs_rollback s' = needs_rollback s \<and>
         exchanges (working s') = exchanges (working s) \<and> ohlcv (working s') = ohlcv (working s) \<and>
         set (symbols (working s)) \<subseteq> set (symbols (working s')) \<and>
         (\<forall>m \<in> set ms. storable m \<longrightarrow>
            (\<exists>y \<in> set (symbols (working s')). s_exchange_id y = x \<and> s_symbol y = m_symbol m)) \<and>
         (\<forall>y \<in> set (symbols (working s')). y \<in> set (symbols (working s)) \<or>
            (\<exists>m \<in> set ms. storable m \<and> s_symbol y = m_symbol m \<and>
               s_base_currency y = m_base m \<and> s_quote_currency y = m_quote m))"
  using assms
proof (induction ms arbitrary: s n)
  case Nil
  then show ?case by simp
next
  case (Cons m ms)
  show ?case
  proof (cases "m_active m")
    case False
    with Cons.prems have "store_markets x ms (s, n) = (s', n')" by simp
    from Cons.IH [OF this] False show ?thesis by (auto simp: storable_def)
  next
    case True
    obtain r s1 where g: "get_or_create_symbol s x (m_symbol m) (m_base m) (m_quote m) (Some m) = (r, s1)"
      by (cases "get_or_create_symbol s x (m_symbol m) (m_base m) (m_quote m) (Some m)") auto
    note e = get_or_create_symbol_effect [OF g]
    show ?thesis
    proof (cases r)
      case None
      with Cons.prems True g have "store_markets x ms (s1, n) = (s', n')" by simp
      from Cons.IH [OF this] e None True show ?thesis
        by (auto simp: storable_def)
    next
      case (Some y)
      with Cons.prems True g have "store_markets x ms (s1, Suc n) = (s', n')" by simp
      note ih = Cons.IH [OF this]
      have st: "storable m" using e Some True by (simp add: storable_def)
      have sub: "set (symbols (working s)) \<subseteq> set (symbols (working s1))"
        using e Some by auto
      have new: "\<forall>z \<in> set (symbols (working s1)). z \<in> set (symbols (working s)) \<or>
            (s_symbol z = m_symbol m \<and> s_base_currency z = m_base m \<and> s_quote_currency z = m_quote m)"
        using e Some by auto
      have ex: "\<exists>z \<in> set (symbols (working s')). s_exchange_id z = x \<and> s_symbol z = m_symbol m"
        using e Some ih by blast
      show ?thesis
        using ih st sub new ex e by (simp add: subset_iff) blast
    qed
  qed
qed

lemma get_or_create_exchange_effect:
  assumes "get_or_create_exchange s name t = (ex, s')"
  shows "durable s' = durable s \<and> commit_calls s' = commit_calls s \<and>
         needs_rollback s' = needs_rollback s \<and>
         symbols (working s') = symbols (working s) \<and> ohlcv (working s') = ohlcv (working s)"
  using assms by (auto simp: get_or_create_exchange_def Let_def split: option.splits)

text \<open>
  Claim C10, as amended. A market whose base or quote currency has more than ten
  characters makes \<open>get_or_create_symbol\<close> return \<open>None\<close> with the session unchanged.
  \<open>fetch_and_store_markets\<close> returns the number of markets that are active and have both
  names of at most ten characters; each of them has a Symbol row afterwards, and every
  Symbol row that was not there before belongs to one of them. Markets that are not
  active are skipped, whatever their names.
\<close>

theorem markets_counted:
  assumes "fetch_markets env = Some markets" and "\<not> commit_raises env 0"
  shows "\<exists>db'. fetch_and_store_markets env db = Some (Inr (length (filter storable markets)), db') \<and>
           (\<forall>m \<in> set markets. storable m \<longrightarrow> (\<exists>y \<in> set (symbols db'). s_symbol y = m_symbol m)) \<and>
           (\<forall>y \<in> set (symbols db'). y \<in> set (symbols db) \<or>
              (\<exists>m \<in> set markets. storable m \<and> s_symbol y = m_symbol m \<and>
                 s_base_currency y = m_base m \<and> s_quote_currency y = m_quote m)) \<and>
           (\<forall>s x symb base quote info. length base > 10 \<or> length quote > 10 \<longrightarrow>
              get_or_create_symbol s x symb base quote info = (None, s))"
proof -
  obtain ex s1 where g: "get_or_create_exchange (session_maker db) (exchange_name env)
      (get_exchange_type (exchange_name env)) = (ex, s1)"
    by (cases "get_or_create_exchange (session_maker db) (exchange_name env)
      (get_exchange_type (exchange_name env))") auto
  obtain s2 n where m: "store_markets (e_id ex) markets (s1, 0) = (s2, n)"
    by (cases "store_markets (e_id ex) markets (s1, 0)") auto
  note e1 = get_or_create_exchange_effect [OF g]
  note e2 = store_markets_spec [OF m]
  have c: "commit_calls s2 = 0" "\<not> needs_rollback s2" using e1 e2 by (simp_all add: session_maker_def)
  have r: "fetch_and_store_markets env db = Some (Inr n, working s2)"
    using g m assms c by (simp add: fetch_and_store_markets_def get_session_def commit_def)
  have s: "symbols (working s1) = symbols db" using e1 by (simp add: session_maker_def)
  have long: "\<forall>s x symb base quote info. length base > 10 \<or> length quote > 10 \<longrightarrow>
              get_or_create_symbol s x symb base quote info = (None, s)"
    by (simp add: get_or_create_symbol_def)
  have a: "\<forall>m \<in> set markets. storable m \<longrightarrow> (\<exists>y \<in> set (symbols (working s2)). s_symbol y = m_symbol m)"
    using e2 by blast
  have b: "\<forall>y \<in> set (symbols (working s2)). y \<in> set (symbols db) \<or>
              (\<exists>m \<in> set markets. storable m \<and> s_symbol y = m_symbol m \<and>
                 s_base_currency y = m_base m \<and> s_quote_currency y = m_quote m)"
    using e2 s by simp
  have n: "n = length (filter storable markets)" using e2 by simp
  show ?thesis using r n a b long by blast
qed

theorem markets_counted_witness:
  "fetch_markets (example_env 0 (\<lambda>n. False)) =
     Some [example_market True ''ETH'' ''USDT'', example_market False ''XRP'' ''USDT'',
           example_market True ''LONGCURRENCY'' ''USDT''] \<and>
   \<not> (\<lambda>n. False) (0::nat) \<and>
   (\<exists>db'. fetch_and_store_markets (example_env 0 (\<lambda>n. False)) example_db = Some (Inr 1, db'))"
proof -
  have h1: "fetch_markets (example_env 0 (\<lambda>n. False)) =
     Some [example_market True ''ETH'' ''USDT'', example_market False ''XRP'' ''USDT'',
           example_market True ''LONGCURRENCY'' ''USDT'']"
    by (simp add: example_env_def)
  have h2: "\<not> commit_raises (example_env 0 (\<lambda>n. False)) 0"
    by (simp add: example_env_def)
  have n: "length (filter storable [example_market True ''ETH'' ''USDT'', example_market False ''XRP'' ''USDT'',
           example_market True ''LONGCURRENCY'' ''USDT'']) = 1"
    by (simp add: storable_def example_market_def)
  from markets_counted [OF h1 h2, of example_db] n h1 show ?thesis by auto
qed

text \<open>The claim as first stated fails for a market that is not active: its names are short,
  and it is neither stored nor counted.\<close>

theorem inactive_market_not_counted:
  "length (m_base (example_market False ''XRP'' ''USDT'')) \<le> 10 \<and>
   length (m_quote (example_market False ''XRP'' ''USDT'')) \<le> 10 \<and>
   fetch_and_store_markets
     ((example_env 0 (\<lambda>n. False))\<lparr>fetch_markets := Some [example_market False ''XRP'' ''USDT'']\<rparr>)
     example_db = Some (Inr 0, example_db)"
  by code_simp

section \<open>The per-candle loop\<close>

lemma present_iff:
  "present tf sy db t \<longleftrightarrow>
    (\<exists>tfe. TimeFrame_of tf = Some tfe \<and>
       (\<exists>r \<in> set (ohlcv db). o_symbol_id r = s_id sy \<and> o_timeframe r = tfe \<and> o_timestamp r = t))"
  by (auto simp: present_def find_None_iff split: option.splits)

lemma query_ohlcv_usable:
  "\<not> needs_rollback s \<Longrightarrow> TimeFrame_of tf = Some tfe \<Longrightarrow>
   \<exists>r. query_ohlcv s (s_id sy) tfe t = Inr r \<and> (r \<noteq> None) = present tf sy (working s) t"
  by (simp add: query_ohlcv_def present_def)

lemma query_ohlcv_answer: "query_ohlcv s i tfe t = Inr r \<Longrightarrow> \<not> needs_rollback s"
  by (simp add: query_ohlcv_def split: if_splits)

text \<open>On a session that needs a rollback, a page the loop starts to process raises at its
  first row, with nothing changed.\<close>

lemma process_candles_needs_rollback:
  assumes "needs_rollback s" and "first_beyond_end e c = Inr False"
  shows "\<exists>x. process_candles tf sy e (c # cs) (s, br, ats) = (Some x, s, br, ats)"
proof (cases c)
  case Malformed
  then show ?thesis by simp
next
  case (Candle t x1 x2 x3 x4 x5)
  with assms(2) have "\<not> beyond_end e t"
    by (auto simp: first_beyond_end_def beyond_end_def split: option.splits if_splits)
  with Candle assms(1) show ?thesis
    by (simp add: query_ohlcv_def split: option.split)
qed

lemma process_candles_effect:
  assumes "process_candles tf sy e cs st = (r, st')"
  shows "(\<not> needs_rollback (fst st) \<longrightarrow>
            snd (snd st') = snd (snd st) @ observed_in_page tf e cs \<and>
            (r \<noteq> None) = page_raises tf e cs) \<and>
         durable (fst st') = durable (fst st) \<and> commit_calls (fst st') = commit_calls (fst st) \<and>
         needs_rollback (fst st') = needs_rollback (fst st) \<and>
         exchanges (working (fst st')) = exchanges (working (fst st)) \<and>
         symbols (working (fst st')) = symbols (working (fst st)) \<and>
         (\<exists>new. ohlcv (working (fst st')) = ohlcv (working (fst st)) @ new \<and>
            fst (snd st') = fst (snd st) + length new \<and>
            (\<forall>x \<in> set new. \<not> beyond_end e (o_timestamp x) \<and> o_symbol_id x = s_id sy \<and>
               o_exchange_id x = s_exchange_id sy))"
  using assms
proof (induction tf sy e cs st arbitrary: r st' rule: process_candles.induct)
  case (1 tf sy e st)
  then show ?case by auto
next
  case (2 tf sy e cs st)
  then show ?case by auto
next
  case (3 tf sy e t a b c d v cs s br ats)
  show ?case
  proof (cases "beyond_end e t")
    case True
    with 3 show ?thesis by auto
  next
    case nb: False
    show ?thesis
    proof (cases "TimeFrame_of tf")
      case None
      with 3 nb show ?thesis by auto
    next
      case (Some tfe)
      show ?thesis
      proof (cases "query_ohlcv s (s_id sy) tfe t")
        case (Inl x)
        then have "needs_rollback s" by (simp add: query_ohlcv_def split: if_splits)
        with 3 nb Some Inl show ?thesis by auto
      next
        case (Inr q)
        note usable = query_ohlcv_answer [OF Inr]
        show ?thesis
        proof (cases q)
          case ex: (Some existing)
          with 3 nb Some Inr have p: "process_candles tf sy e cs (s, br, ats @ [t]) = (r, st')"
            by simp
          from "3.IH"(2) [OF nb Some Inr ex p] nb Some show ?thesis by simp
        next
          case None
          let ?row = "\<lparr>o_exchange_id = s_exchange_id sy, o_symbol_id = s_id sy, o_timeframe = tfe,
              o_timestamp = t, o_open_price = a, o_high_price = b, o_low_price = c,
              o_close_price = d, o_volume = v\<rparr>"
          from 3 nb Some Inr None
          have p: "process_candles tf sy e cs (add_ohlcv s ?row, Suc br, ats @ [t]) = (r, st')"
            by simp
          note ih = "3.IH"(1) [OF nb Some Inr None p]
          from ih obtain new where new:
            "ohlcv (working (fst st')) = ohlcv (working (add_ohlcv s ?row)) @ new"
            "fst (snd st') = Suc br + length new"
            "\<forall>x \<in> set new. \<not> beyond_end e (o_timestamp x) \<and> o_symbol_id x = s_id sy \<and>
                 o_exchange_id x = s_exchange_id sy"
            by auto
          have "ohlcv (working (fst st')) = ohlcv (working s) @ (?row # new) \<and>
              fst (snd st') = br + length (?row # new) \<and>
              (\<forall>x \<in> set (?row # new). \<not> beyond_end e (o_timestamp x) \<and> o_symbol_id x = s_id sy \<and>
                 o_exchange_id x = s_exchange_id sy)"
            using new nb by (simp add: add_ohlcv_def)
          then have "\<exists>new. ohlcv (working (fst st')) = ohlcv (working s) @ new \<and>
              fst (snd st') = br + length new \<and>
              (\<forall>x \<in> set new. \<not> beyond_end e (o_timestamp x) \<and> o_symbol_id x = s_id sy \<and>
                 o_exchange_id x = s_exchange_id sy)" by blast
          with ih nb Some show ?thesis by (simp add: add_ohlcv_def)
        qed
      qed
    qed
  qed
qed

text \<open>What the per-candle loop leaves alone, on any session.\<close>

lemma process_candles_frame:
  assumes "process_candles tf sy e cs (s, br, ats) = (r, s', br', ats')"
  shows "durable s' = durable s" and "commit_calls s' = commit_calls s"
    and "needs_rollback s' = needs_rollback s"
    and "exchanges (working s') = exchanges (working s)"
    and "symbols (working s') = symbols (working s)"
    and "\<exists>new. ohlcv (working s') = ohlcv (working s) @ new \<and> br' = br + length new \<and>
            (\<forall>x \<in> set new. \<not> beyond_end e (o_timestamp x) \<and> o_symbol_id x = s_id sy \<and>
               o_exchange_id x = s_exchange_id sy)"
  using process_candles_effect [OF assms] by simp_all

text \<open>What it does on a usable session.\<close>

lemma process_candles_spec:
  assumes "process_candles tf sy e cs (s, br, ats) = (r, s', br', ats')"
      and "\<not> needs_rollback s"
  shows "ats' = ats @ observed_in_page tf e cs"
    and "(r \<noteq> None) = page_raises tf e cs"
    and "durable s' = durable s" and "commit_calls s' = commit_calls s"
    and "exchanges (working s') = exchanges (working s)"
    and "symbols (working s') = symbols (working s)"
    and "\<exists>new. ohlcv (working s') = ohlcv (working s) @ new \<and> br' = br + length new \<and>
            (\<forall>x \<in> set new. \<not> beyond_end e (o_timestamp x) \<and> o_symbol_id x = s_id sy \<and>
               o_exchange_id x = s_exchange_id sy)"
    and "\<not> needs_rollback s'"
  using process_candles_effect [OF assms(1)] assms(2) by simp_all

text \<open>After a page, every timestamp it recorded is visible to the existence check, and
  so is every timestamp that was visible before.\<close>

lemma process_candles_present:
  assumes "process_candles tf sy e cs st = (r, st')" and "\<not> needs_rollback (fst st)"
  shows "(\<forall>t \<in> set (observed_in_page tf e cs). present tf sy (working (fst st')) t) \<and>
         (\<forall>t. present tf sy (working (fst st)) t \<longrightarrow> present tf sy (working (fst st')) t)"
  using assms
proof (induction tf sy e cs st arbitrary: r st' rule: process_candles.induct)
  case (1 tf sy e st)
  then show ?case by auto
next
  case (2 tf sy e cs st)
  then show ?case by auto
next
  case (3 tf sy e t a b c d v cs s br ats)
  from "3.prems"(2) have usable: "\<not> needs_rollback s" by simp
  show ?case
  proof (cases "beyond_end e t")
    case True
    with 3 show ?thesis by auto
  next
    case nb: False
    show ?thesis
    proof (cases "TimeFrame_of tf")
      case None
      with 3 nb show ?thesis by auto
    next
      case (Some tfe)
      from query_ohlcv_usable [OF usable Some, of sy t] obtain q where
        q: "query_ohlcv s (s_id sy) tfe t = Inr q" and
        qp: "(q \<noteq> None) = present tf sy (working s) t" by blast
      show ?thesis
      proof (cases q)
        case ex: (Some existing)
        with "3.prems"(1) nb Some q have p: "process_candles tf sy e cs (s, br, ats @ [t]) = (r, st')"
          by simp
        have u: "\<not> needs_rollback (fst (s, br, ats @ [t]))" using usable by simp
        note ih = "3.IH"(2) [OF nb Some q ex p u]
        have "present tf sy (working s) t" using qp ex by simp
        with ih nb Some show ?thesis by simp
      next
        case None
        let ?row = "\<lparr>o_exchange_id = s_exchange_id sy, o_symbol_id = s_id sy, o_timeframe = tfe,
            o_timestamp = t, o_open_price = a, o_high_price = b, o_low_price = c,
            o_close_price = d, o_volume = v\<rparr>"
        from "3.prems"(1) nb Some q None
        have p: "process_candles tf sy e cs (add_ohlcv s ?row, Suc br, ats @ [t]) = (r, st')" by simp
        have u: "\<not> needs_rollback (fst (add_ohlcv s ?row, Suc br, ats @ [t]))"
          using usable by (simp add: add_ohlcv_def)
        note ih = "3.IH"(1) [OF nb Some q None p u]
        have here: "present tf sy (working (add_ohlcv s ?row)) t"
          using Some by (simp add: present_iff add_ohlcv_def)
        have mono: "\<forall>u. present tf sy (working s) u \<longrightarrow> present tf sy (working (add_ohlcv s ?row)) u"
          by (auto simp: present_iff add_ohlcv_def)
        from ih here mono nb Some show ?thesis by simp
      qed
    qed
  qed
qed

text \<open>A page whose recorded timestamps are all in the store already changes nothing in
  the session and counts no new record.\<close>

lemma process_candles_all_present:
  assumes "\<forall>t \<in> set (observed_in_page tf e cs). present tf sy (working s) t"
      and usable: "\<not> needs_rollback s"
  shows "\<exists>r. process_candles tf sy e cs (s, br, ats) = (r, s, br, ats @ observed_in_page tf e cs)"
  using assms(1)
proof (induction cs arbitrary: ats)
  case Nil
  then show ?case by simp
next
  case (Cons c cs)
  show ?case
  proof (cases c)
    case Malformed
    then show ?thesis by simp
  next
    case (Candle t a b c d v)
    show ?thesis
    proof (cases "beyond_end e t \<or> TimeFrame_of tf = None")
      case True
      with Candle show ?thesis by (auto split: option.splits)
    next
      case False
      then obtain tfe where tfe: "TimeFrame_of tf = Some tfe" by auto
      from False Candle Cons.prems have "present tf sy (working s) t" by simp
      with query_ohlcv_usable [OF usable tfe, of sy t] obtain existing where
        ex: "query_ohlcv s (s_id sy) tfe t = Inr (Some existing)" by auto
      from False Candle Cons.prems
      have "\<forall>t \<in> set (observed_in_page tf e cs). present tf sy (working s) t" by simp
      from Cons.IH [OF this, of "ats @ [t]"] False Candle tfe ex show ?thesis by simp
    qed
  qed
qed

section \<open>One pass of the loop, case by case\<close>

text \<open>Every pass of the loop takes exactly one of nine paths; each is given with the
  state it leaves. The paths that get past the per-candle loop without an exception are
  taken on a usable session only.\<close>

lemma backfill_iteration_cases [consumes 1, case_names fetch_raises empty_page first_raises
    reached_end page_raises last_raises no_commit commit_ok commit_raises]:
  assumes "backfill_iteration env tf sy e st = (ctl, st')"
  obtains
    "fetch_ohlcv env (fetch_calls st) (since st) = Raises" "ctl = Continue"
      "st' = st\<lparr>fetch_calls := Suc (fetch_calls st), since := since st + 86400000,
                errors_logged := Suc (errors_logged st)\<rparr>"
  | "fetch_ohlcv env (fetch_calls st) (since st) = Page []" "ctl = Break"
      "st' = st\<lparr>fetch_calls := Suc (fetch_calls st)\<rparr>"
  | cs x where "fetch_ohlcv env (fetch_calls st) (since st) = Page cs" "cs \<noteq> []"
      "first_beyond_end e (hd cs) = Inl x" "ctl = Continue"
      "st' = st\<lparr>fetch_calls := Suc (fetch_calls st), since := since st + 86400000,
                errors_logged := Suc (errors_logged st)\<rparr>"
  | cs where "fetch_ohlcv env (fetch_calls st) (since st) = Page cs" "cs \<noteq> []"
      "first_beyond_end e (hd cs) = Inr True" "ctl = Break"
      "st' = st\<lparr>fetch_calls := Suc (fetch_calls st)\<rparr>"
  | cs x s br ts where "fetch_ohlcv env (fetch_calls st) (since st) = Page cs" "cs \<noteq> []"
      "first_beyond_end e (hd cs) = Inr False"
      "process_candles tf sy e cs (sess st, 0, all_timestamps st) = (Some x, s, br, ts)"
      "ctl = Continue"
      "st' = st\<lparr>fetch_calls := Suc (fetch_calls st), batch_count := Suc (batch_count st),
                sess := s, all_timestamps := ts, since := since st + 86400000,
                errors_logged := Suc (errors_logged st)\<rparr>"
  | cs s br ts where "fetch_ohlcv env (fetch_calls st) (since st) = Page cs" "cs \<noteq> []"
      "first_beyond_end e (hd cs) = Inr False"
      "process_candles tf sy e cs (sess st, 0, all_timestamps st) = (None, s, br, ts)"
      "last cs = Malformed" "ctl = Continue"
      "st' = st\<lparr>fetch_calls := Suc (fetch_calls st), batch_count := Suc (batch_count st),
                sess := s, all_timestamps := ts, total_records := total_records st + br,
                since := since st + 86400000, errors_logged := Suc (errors_logged st)\<rparr>"
      "\<not> needs_rollback (sess st)"
  | cs s br ts t a b c d v where "fetch_ohlcv env (fetch_calls st) (since st) = Page cs" "cs \<noteq> []"
      "first_beyond_end e (hd cs) = Inr False"
      "process_candles tf sy e cs (sess st, 0, all_timestamps st) = (None, s, br, ts)"
      "last cs = Candle t a b c d v" "Suc (batch_count st) mod 10 \<noteq> 0" "ctl = Continue"
      "st' = st\<lparr>fetch_calls := Suc (fetch_calls st), batch_count := Suc (batch_count st),
                sess := s, all_timestamps := ts, total_records := total_records st + br,
                since := t + 1\<rparr>"
      "\<not> needs_rollback (sess st)"
  | cs s br ts t a b c d v where "fetch_ohlcv env (fetch_calls st) (since st) = Page cs" "cs \<noteq> []"
      "first_beyond_end e (hd cs) = Inr False"
      "process_candles tf sy e cs (sess st, 0, all_timestamps st) = (None, s, br, ts)"
      "last cs = Candle t a b c d v" "Suc (batch_count st) mod 10 = 0"
      "\<not> commit_raises env (commit_calls s)" "ctl = Continue"
      "st' = st\<lparr>fetch_calls := Suc (fetch_calls st), batch_count := Suc (batch_count st),
                sess := s\<lparr>durable := working s, commit_calls := Suc (commit_calls s)\<rparr>,
                all_timestamps := ts, total_records := total_records st + br, since := t + 1\<rparr>"
      "\<not> needs_rollback (sess st)"
  | cs s br ts t a b c d v where "fetch_ohlcv env (fetch_calls st) (since st) = Page cs" "cs \<noteq> []"
      "first_beyond_end e (hd cs) = Inr False"
      "process_candles tf sy e cs (sess st, 0, all_timestamps st) = (None, s, br, ts)"
      "last cs = Candle t a b c d v" "Suc (batch_count st) mod 10 = 0"
      "commit_raises env (commit_calls s)" "ctl = Continue"
      "st' = st\<lparr>fetch_calls := Suc (fetch_calls st), batch_count := Suc (batch_count st),
                sess := s\<lparr>working := durable s, needs_rollback := True,
                         commit_calls := Suc (commit_calls s)\<rparr>,
                all_timestamps := ts, total_records := total_records st + br,
                since := t + 1 + 86400000, errors_logged := Suc (errors_logged st)\<rparr>"
      "\<not> needs_rollback (sess st)"
proof (cases "fetch_ohlcv env (fetch_calls st) (since st)")
  case Raises
  with assms that(1) show ?thesis
    by (simp add: backfill_iteration_def batch_error_def)
next
  case (Page cs)
  show ?thesis
  proof (cases cs)
    case Nil
    with assms Page that(2) show ?thesis by (simp add: backfill_iteration_def)
  next
    case (Cons first rest)
    then have ne: "cs \<noteq> []" and hd: "hd cs = first" by simp_all
    show ?thesis
    proof (cases "first_beyond_end e first")
      case (Inl x)
      with assms Page Cons that(3) [of cs x] show ?thesis
        by (simp add: backfill_iteration_def batch_error_def)
    next
      case (Inr b)
      show ?thesis
      proof (cases b)
        case True
        with assms Page Cons Inr that(4) [of cs] show ?thesis
          by (simp add: backfill_iteration_def)
      next
        case False
        obtain r s br ts where pc:
          "process_candles tf sy e cs (sess st, 0, all_timestamps st) = (r, s, br, ts)"
          by (cases "process_candles tf sy e cs (sess st, 0, all_timestamps st)") auto
        have fb: "first_beyond_end e (hd cs) = Inr False" using Inr False hd by simp
        note defs = backfill_iteration_def Let_def batch_error_def commit_def
        note fs = assms Page [unfolded Cons] Inr False pc [unfolded Cons]
        show ?thesis
        proof (cases r)
          case (Some x)
          with fs have "ctl = Continue \<and>
              st' = st\<lparr>fetch_calls := Suc (fetch_calls st), batch_count := Suc (batch_count st),
                sess := s, all_timestamps := ts, since := since st + 86400000,
                errors_logged := Suc (errors_logged st)\<rparr>"
            by (cases st) (simp add: defs del: process_candles.simps last.simps)
          with that(5) [of cs x s br ts] Page ne fb pc Some show ?thesis by simp
        next
          case None
          have usable: "\<not> needs_rollback (sess st)"
          proof
            assume "needs_rollback (sess st)"
            from process_candles_needs_rollback [OF this, of e first tf sy rest 0 "all_timestamps st"]
              Inr False pc [unfolded Cons] None
            show False by simp
          qed
          with process_candles_frame(3) [OF pc] have nrs: "\<not> needs_rollback s" by simp
          show ?thesis
          proof (cases "last cs")
            case Malformed
            with fs None Malformed [unfolded Cons] have "ctl = Continue \<and>
                st' = st\<lparr>fetch_calls := Suc (fetch_calls st), batch_count := Suc (batch_count st),
                  sess := s, all_timestamps := ts, total_records := total_records st + br,
                  since := since st + 86400000, errors_logged := Suc (errors_logged st)\<rparr>"
              by (cases st) (simp add: defs del: process_candles.simps last.simps)
            with that(6) [of cs s br ts] Page ne fb pc None Malformed usable show ?thesis by simp
          next
            case (Candle t a b c d v)
            show ?thesis
            proof (cases "Suc (batch_count st) mod 10 = 0")
              case False
              with fs None Candle [unfolded Cons] have "ctl = Continue \<and>
                  st' = st\<lparr>fetch_calls := Suc (fetch_calls st), batch_count := Suc (batch_count st),
                    sess := s, all_timestamps := ts, total_records := total_records st + br,
                    since := t + 1\<rparr>"
                by (cases st) (simp add: defs del: process_candles.simps last.simps)
              with that(7) [of cs s br ts t a b c d v] Page ne fb pc None Candle False usable
              show ?thesis by simp
            next
              case True
              show ?thesis
              proof (cases "commit_raises env (commit_calls s)")
                case False
                with fs None Candle [unfolded Cons] True nrs have "ctl = Continue \<and>
                    st' = st\<lparr>fetch_calls := Suc (fetch_calls st), batch_count := Suc (batch_count st),
                      sess := s\<lparr>durable := working s, commit_calls := Suc (commit_calls s)\<rparr>,
                      all_timestamps := ts, total_records := total_records st + br, since := t + 1\<rparr>"
                  by (cases st) (simp add: defs del: process_candles.simps last.simps)
                with that(8) [of cs s br ts t a b c d v] Page ne fb pc None Candle True False usable
                show ?thesis by simp
              next
                case cr: True
                with fs None Candle [unfolded Cons] True nrs have "ctl = Continue \<and>
                    st' = st\<lparr>fetch_calls := Suc (fetch_calls st), batch_count := Suc (batch_count st),
                      sess := s\<lparr>working := durable s, needs_rollback := True,
                               commit_calls := Suc (commit_calls s)\<rparr>,
                      all_timestamps := ts, total_records := total_records st + br,
                      since := t + 1 + 86400000, errors_logged := Suc (errors_logged st)\<rparr>"
                  by (cases st) (simp add: defs del: process_candles.simps last.simps)
                with that(9) [of cs s br ts t a b c d v] Page ne fb pc None Candle True cr usable
                show ?thesis by simp
              qed
            qed
          qed
        qed
      qed
    qed
  qed
qed

section \<open>The cursor\<close>

text \<open>
  Claim C3. Under the precondition that every candle of a page has a timestamp at or
  after the \<open>since\<close> it was requested with (ascending order inside the page is not even
  needed), a pass that leaves the loop keeps the cursor and a pass that continues
  strictly increases it: after a page processed without error the cursor is the last
  candle's timestamp of the whole page plus one, whatever the end bound cut off; after an
  error it is one day (86400000 ms) past the cursor the handler found, which is the old
  cursor, or the already advanced one when it was the commit that raised.
\<close>

theorem cursor_strictly_increasing:
  assumes gw: "gateway_from_since env"
      and it: "backfill_iteration env tf sy e st = (ctl, st')"
  shows "(ctl = Break \<longrightarrow> since st' = since st) \<and>
         (ctl = Continue \<longrightarrow> since st < since st') \<and>
         (ctl = Continue \<and> errors_logged st' = errors_logged st \<longrightarrow>
            (\<exists>cs t a b c d v. fetch_ohlcv env (fetch_calls st) (since st) = Page cs \<and>
               last cs = Candle t a b c d v \<and> since st' = t + 1)) \<and>
         (errors_logged st' \<noteq> errors_logged st \<longrightarrow>
            since st' = since st + 86400000 \<or>
            (\<exists>cs t a b c d v. fetch_ohlcv env (fetch_calls st) (since st) = Page cs \<and>
               last cs = Candle t a b c d v \<and> since st' = t + 1 + 86400000))"
proof -
  have from_since: "since st \<le> t"
    if "fetch_ohlcv env (fetch_calls st) (since st) = Page cs" "cs \<noteq> []"
       "last cs = Candle t a b c d v" for cs t a b c d v
  proof -
    from that(2,3) have "Candle t a b c d v \<in> set cs" using last_in_set by metis
    with gw that(1) show ?thesis unfolding gateway_from_since_def by blast
  qed
  from it show ?thesis
  proof (cases rule: backfill_iteration_cases)
    case fetch_raises
    then show ?thesis by simp
  next
    case empty_page
    then show ?thesis by simp
  next
    case (first_raises cs x)
    then show ?thesis by simp
  next
    case (reached_end cs)
    then show ?thesis by simp
  next
    case (page_raises cs x s br ts)
    then show ?thesis by simp
  next
    case (last_raises cs s br ts)
    then show ?thesis by simp
  next
    case (no_commit cs s br ts t a b c d v)
    with from_since [of cs t a b c d v] show ?thesis by simp
  next
    case (commit_ok cs s br ts t a b c d v)
    with from_since [of cs t a b c d v] show ?thesis by simp
  next
    case (commit_raises cs s br ts t a b c d v)
    with from_since [of cs t a b c d v] show ?thesis by simp
  qed
qed

lemma example_gateway_from_since: "gateway_from_since (example_env k failing)"
  by (auto simp: gateway_from_since_def example_env_def example_gateway_def candle_at_def
      split: if_splits)

theorem cursor_strictly_increasing_witness:
  "gateway_from_since (example_env 3 (\<lambda>n. False)) \<and>
   since (initial_state 0 (session_maker example_db)) = 0 \<and>
   since (snd (backfill_iteration (example_env 3 (\<lambda>n. False)) ''1h'' example_symbol None
                 (initial_state 0 (session_maker example_db)))) = 2"
proof -
  let ?st = "initial_state 0 (session_maker example_db)"
  let ?r = "backfill_iteration (example_env 3 (\<lambda>n. False)) ''1h'' example_symbol None ?st"
  have h1: "gateway_from_since (example_env 3 (\<lambda>n. False))"
    by (rule example_gateway_from_since)
  have h2: "?r = (fst ?r, snd ?r)" by simp
  have c: "fst ?r = Continue" by code_simp
  have e: "errors_logged (snd ?r) = errors_logged ?st" by code_simp
  have f: "fetch_ohlcv (example_env 3 (\<lambda>n. False)) (fetch_calls ?st) (since ?st)
      = Page [candle_at 0, candle_at 1]" by code_simp
  have s0: "since ?st = 0" by (simp add: initial_state_def)
  from cursor_strictly_increasing [OF h1 h2] c e
  obtain cs t a b c d v where
    "fetch_ohlcv (example_env 3 (\<lambda>n. False)) (fetch_calls ?st) (since ?st) = Page cs"
    "last cs = Candle t a b c d v" "since (snd ?r) = t + 1" by auto
  with f have "since (snd ?r) = 2" by (simp add: candle_at_def)
  with h1 s0 show ?thesis by simp
qed

section \<open>Recovery from a failing page\<close>

text \<open>What the handler of a batch error leaves behind. The pass continues with the next
  fetch, from a cursor one day ahead, and what earlier commits made durable is untouched.
  When no commit was attempted, every row staged so far is still staged. When the periodic
  commit raised, the rows staged since the last successful commit are gone and the session
  needs a rollback, which the handler does not issue.\<close>

lemma batch_error_recovery:
  assumes it: "backfill_iteration env tf sy e st = (ctl, st')"
      and err: "errors_logged st' \<noteq> errors_logged st"
  shows "ctl = Continue \<and> errors_logged st' = Suc (errors_logged st) \<and>
         fetch_calls st' = Suc (fetch_calls st) \<and>
         durable (sess st') = durable (sess st) \<and>
         (commit_calls (sess st') = commit_calls (sess st) \<longrightarrow>
            since st' = since st + 86400000 \<and>
            (\<exists>new. ohlcv (working (sess st')) = ohlcv (working (sess st)) @ new)) \<and>
         (commit_calls (sess st') \<noteq> commit_calls (sess st) \<longrightarrow>
            commit_raises env (commit_calls (sess st)) \<and>
            working (sess st') = durable (sess st) \<and> needs_rollback (sess st') \<and>
            (\<exists>cs t a b c d v. fetch_ohlcv env (fetch_calls st) (since st) = Page cs \<and>
               last cs = Candle t a b c d v \<and> since st' = t + 1 + 86400000))"
  using it
proof (cases rule: backfill_iteration_cases)
  case fetch_raises
  then show ?thesis by simp
next
  case empty_page
  with err show ?thesis by simp
next
  case (first_raises cs x)
  then show ?thesis by simp
next
  case (reached_end cs)
  with err show ?thesis by simp
next
  case (page_raises cs x s br ts)
  with process_candles_frame [OF page_raises(4)] show ?thesis by auto
next
  case (last_raises cs s br ts)
  with process_candles_frame [OF last_raises(4)] show ?thesis by auto
next
  case (no_commit cs s br ts t a b c d v)
  with err show ?thesis by simp
next
  case (commit_ok cs s br ts t a b c d v)
  with err show ?thesis by simp
next
  case (commit_raises cs s br ts t a b c d v)
  with process_candles_frame [OF commit_raises(4)] show ?thesis by auto
qed

text \<open>
  Claim C4 says that no exception raised in a pass, from the fetch to the periodic commit,
  makes the run fail or reaches the caller, and that the rows staged by other pages of the
  group are kept. For an exception of the periodic commit the source attempts this and
  misses it: the error is logged and the loop continues, but the session is never rolled
  back. In this run the commit after the tenth page raises once; the loop has counted
  twenty records as written and logged one batch error, the final commit then raises to
  the caller, and none of the twenty rows is stored.
\<close>

theorem periodic_commit_error_fails_run:
  "commit_raises (example_env 10 (\<lambda>n. n = 0)) 0 \<and>
   map_option (\<lambda>st. (total_records st, errors_logged st))
     (backfill_loop 20 (example_env 10 (\<lambda>n. n = 0)) ''1h'' example_symbol None
        (initial_state 0 (session_maker example_db))) = Some (20, 1) \<and>
   continuous_backfill_ohlcv 20 (example_env 10 (\<lambda>n. n = 0)) ''BTC/USDT'' ''1h'' 0 None example_db
     = Some (Inl SQLAlchemyError, example_db)"
  by code_simp

section \<open>Errors of the store on commit\<close>

lemma commit_raises_durable: "commit env s = (False, s') \<Longrightarrow> durable s' = durable s"
  by (auto simp: commit_def split: if_splits)

text \<open>
  Claim C5, as amended. When the final commit, the one after the loop has ended, raises,
  the error reaches the caller of \<open>continuous_backfill_ohlcv\<close>, and the database holds
  exactly what the periodic commits before it had made durable. When a periodic commit
  inside the loop raises, the per-page recovery branch catches the error first: one more
  batch error is logged, the cursor is the last timestamp of the page plus one plus one
  day, the loop continues with the next fetch, and what earlier commits made durable is
  untouched.
\<close>

theorem commit_error_paths:
  "(get_db_symbol env (session_maker db) symbol = Some sy \<and>
    backfill_loop fuel env tf sy e (initial_state since0 (session_maker db)) = Some st \<and>
    \<not> fst (commit env (sess st)) \<longrightarrow>
      continuous_backfill_ohlcv fuel env symbol tf since0 e db
        = Some (Inl SQLAlchemyError, durable (sess st))) \<and>
   (backfill_iteration env tf sy e st0 = (ctl, st1) \<and>
    commit_calls (sess st1) \<noteq> commit_calls (sess st0) \<and>
    commit_raises env (commit_calls (sess st0)) \<longrightarrow>
      ctl = Continue \<and> errors_logged st1 = Suc (errors_logged st0) \<and>
      fetch_calls st1 = Suc (fetch_calls st0) \<and> durable (sess st1) = durable (sess st0) \<and>
      (\<exists>cs t a b c d v. fetch_ohlcv env (fetch_calls st0) (since st0) = Page cs \<and>
         last cs = Candle t a b c d v \<and> since st1 = t + 1 + 86400000))"
proof (intro conjI impI)
  assume a: "get_db_symbol env (session_maker db) symbol = Some sy \<and>
    backfill_loop fuel env tf sy e (initial_state since0 (session_maker db)) = Some st \<and>
    \<not> fst (commit env (sess st))"
  obtain ok s' where c: "commit env (sess st) = (ok, s')" by (cases "commit env (sess st)") auto
  with a have f: "commit env (sess st) = (False, s')" by simp
  from commit_raises_durable [OF f] a f
  show "continuous_backfill_ohlcv fuel env symbol tf since0 e db
        = Some (Inl SQLAlchemyError, durable (sess st))"
    by (simp add: continuous_backfill_ohlcv_def get_session_def backfill_body_def rollback_def)
next
  assume b: "backfill_iteration env tf sy e st0 = (ctl, st1) \<and>
    commit_calls (sess st1) \<noteq> commit_calls (sess st0) \<and>
    commit_raises env (commit_calls (sess st0))"
  then have it: "backfill_iteration env tf sy e st0 = (ctl, st1)" by simp
  from it have "ctl = Continue \<and> errors_logged st1 = Suc (errors_logged st0) \<and>
      fetch_calls st1 = Suc (fetch_calls st0) \<and> durable (sess st1) = durable (sess st0) \<and>
      (\<exists>cs t a b c d v. fetch_ohlcv env (fetch_calls st0) (since st0) = Page cs \<and>
         last cs = Candle t a b c d v \<and> since st1 = t + 1 + 86400000)"
  proof (cases rule: backfill_iteration_cases)
    case fetch_raises
    with b show ?thesis by simp
  next
    case empty_page
    with b show ?thesis by simp
  next
    case (first_raises cs x)
    with b show ?thesis by simp
  next
    case (reached_end cs)
    with b show ?thesis by simp
  next
    case (page_raises cs x s br ts)
    with b process_candles_frame(2) [OF page_raises(4)] show ?thesis by simp
  next
    case (last_raises cs s br ts)
    with b process_candles_frame(2) [OF last_raises(4)] show ?thesis by simp
  next
    case (no_commit cs s br ts t a b c d v)
    with b process_candles_frame(2) [OF no_commit(4)] show ?thesis by simp
  next
    case (commit_ok cs s br ts t a b c d v)
    with b process_candles_frame(2) [OF commit_ok(4)] show ?thesis by simp
  next
    case (commit_raises cs s br ts t a b c d v)
    with process_candles_frame(1) [OF commit_raises(4)] show ?thesis by simp
  qed
  then show "ctl = Continue" "errors_logged st1 = Suc (errors_logged st0)"
    "fetch_calls st1 = Suc (fetch_calls st0)" "durable (sess st1) = durable (sess st0)"
    "\<exists>cs t a b c d v. fetch_ohlcv env (fetch_calls st0) (since st0) = Page cs \<and>
         last cs = Candle t a b c d v \<and> since st1 = t + 1 + 86400000"
    by simp_all
qed

theorem commit_error_paths_witness:
  "map_option fst (continuous_backfill_ohlcv 11 (example_env 10 (\<lambda>n. n = 1)) ''BTC/USDT'' ''1h'' 0 None
       example_db) = Some (Inl SQLAlchemyError) \<and>
   map_option (length \<circ> ohlcv \<circ> snd) (continuous_backfill_ohlcv 11 (example_env 10 (\<lambda>n. n = 1))
       ''BTC/USDT'' ''1h'' 0 None example_db) = Some 20 \<and>
   fst (backfill_iteration (example_env 11 (\<lambda>n. n = 0)) ''1h'' example_symbol None
     ((initial_state 0 (session_maker example_db))\<lparr>batch_count := 9\<rparr>)) = Continue \<and>
   errors_logged (snd (backfill_iteration (example_env 11 (\<lambda>n. n = 0)) ''1h'' example_symbol None
     ((initial_state 0 (session_maker example_db))\<lparr>batch_count := 9\<rparr>))) = 1"
proof -
  let ?env = "example_env 10 (\<lambda>n. n = 1)"
  let ?l = "backfill_loop 11 ?env ''1h'' example_symbol None (initial_state 0 (session_maker example_db))"
  have h1: "get_db_symbol ?env (session_maker example_db) ''BTC/USDT'' = Some example_symbol"
    by code_simp
  have ne: "?l \<noteq> None" by code_simp
  then have h2: "?l = Some (the ?l)" by simp
  have h3: "\<not> fst (commit ?env (sess (the ?l)))" by code_simp
  have len: "length (ohlcv (durable (sess (the ?l)))) = 20" by code_simp
  from commit_error_paths [of ?env example_db "''BTC/USDT''" example_symbol 11 "''1h''" None 0 "the ?l"]
  have "get_db_symbol ?env (session_maker example_db) ''BTC/USDT'' = Some example_symbol \<and>
    ?l = Some (the ?l) \<and> \<not> fst (commit ?env (sess (the ?l))) \<longrightarrow>
      continuous_backfill_ohlcv 11 ?env ''BTC/USDT'' ''1h'' 0 None example_db
        = Some (Inl SQLAlchemyError, durable (sess (the ?l)))"
    by (rule conjunct1)
  moreover have "get_db_symbol ?env (session_maker example_db) ''BTC/USDT'' = Some example_symbol \<and>
    ?l = Some (the ?l) \<and> \<not> fst (commit ?env (sess (the ?l)))"
    by (intro conjI) (fact h1, fact h2, fact h3)
  ultimately
  have r: "continuous_backfill_ohlcv 11 ?env ''BTC/USDT'' ''1h'' 0 None example_db
      = Some (Inl SQLAlchemyError, durable (sess (the ?l)))" by (rule mp)
  let ?env' = "example_env 11 (\<lambda>n. n = 0)"
  let ?st0 = "(initial_state 0 (session_maker example_db))\<lparr>batch_count := 9\<rparr>"
  let ?p = "backfill_iteration ?env' ''1h'' example_symbol None ?st0"
  have k1: "?p = (fst ?p, snd ?p)" by simp
  have k2: "commit_calls (sess (snd ?p)) \<noteq> commit_calls (sess ?st0)" by code_simp
  have k3: "commit_raises ?env' (commit_calls (sess ?st0))" by code_simp
  have e0: "errors_logged ?st0 = 0" by code_simp
  from commit_error_paths [of ?env' _ _ example_symbol _ "''1h''" None _ _ ?st0 "fst ?p" "snd ?p"]
  have "?p = (fst ?p, snd ?p) \<and> commit_calls (sess (snd ?p)) \<noteq> commit_calls (sess ?st0) \<and>
      commit_raises ?env' (commit_calls (sess ?st0)) \<longrightarrow>
      fst ?p = Continue \<and> errors_logged (snd ?p) = Suc (errors_logged ?st0) \<and>
      fetch_calls (snd ?p) = Suc (fetch_calls ?st0) \<and> durable (sess (snd ?p)) = durable (sess ?st0) \<and>
      (\<exists>cs t a b c d v. fetch_ohlcv ?env' (fetch_calls ?st0) (since ?st0) = Page cs \<and>
         last cs = Candle t a b c d v \<and> since (snd ?p) = t + 1 + 86400000)"
    by (rule conjunct2)
  moreover have "?p = (fst ?p, snd ?p) \<and> commit_calls (sess (snd ?p)) \<noteq> commit_calls (sess ?st0) \<and>
      commit_raises ?env' (commit_calls (sess ?st0))"
    by (intro conjI) (fact k1, fact k2, fact k3)
  ultimately have "fst ?p = Continue \<and> errors_logged (snd ?p) = Suc (errors_logged ?st0) \<and>
      fetch_calls (snd ?p) = Suc (fetch_calls ?st0) \<and> durable (sess (snd ?p)) = durable (sess ?st0) \<and>
      (\<exists>cs t a b c d v. fetch_ohlcv ?env' (fetch_calls ?st0) (since ?st0) = Page cs \<and>
         last cs = Candle t a b c d v \<and> since (snd ?p) = t + 1 + 86400000)"
    by (rule mp)
  then have q: "fst ?p = Continue" "errors_logged (snd ?p) = Suc (errors_logged ?st0)"
    by (rule conjunct1, elim conjE)
  from r len q e0 show ?thesis by simp
qed

text \<open>The claim as first stated fails for the periodic commit: the only commit the loop
  of this run calls, after the tenth page, raises; the run is not aborted there, the
  per-page handler logs the error as a batch error, and the loop makes two more fetches
  (the eleventh page, whose lookup raises on the session that was not rolled back and is
  logged as the second batch error, and the empty page).\<close>

theorem periodic_commit_error_absorbed:
  "commit_raises (example_env 11 (\<lambda>n. n = 0)) 0 \<and>
   map_option (\<lambda>st. (fetch_calls st, batch_count st, errors_logged st, commit_calls (sess st)))
     (backfill_loop 20 (example_env 11 (\<lambda>n. n = 0)) ''1h'' example_symbol None
        (initial_state 0 (session_maker example_db))) = Some (12, 11, 2, 1)"
  by code_simp

section \<open>Commit batching\<close>

text \<open>In any pass, one commit is issued exactly when the session is usable, the page was
  processed without an exception and the batch counter has become a multiple of ten; no
  other pass commits.\<close>

lemma iteration_commits_iff:
  assumes it: "backfill_iteration env tf sy e st = (ctl, st')"
  shows "commit_calls (sess st') =
           commit_calls (sess st) +
           (if (\<exists>cs. fetch_ohlcv env (fetch_calls st) (since st) = Page cs \<and> cs \<noteq> [] \<and>
                  first_beyond_end e (hd cs) = Inr False \<and> \<not> page_raises tf e cs \<and>
                  last cs \<noteq> Malformed) \<and>
               \<not> needs_rollback (sess st) \<and> Suc (batch_count st) mod 10 = 0
            then 1 else 0)"
  using it
proof (cases rule: backfill_iteration_cases)
  case (page_raises cs x s br ts)
  show ?thesis
  proof (cases "needs_rollback (sess st)")
    case True
    with page_raises process_candles_frame(2) [OF page_raises(4)] show ?thesis by simp
  next
    case False
    with page_raises process_candles_spec(2,4) [OF page_raises(4) False] show ?thesis by simp
  qed
next
  case (last_raises cs s br ts)
  with process_candles_frame(2) [OF last_raises(4)] show ?thesis by simp
next
  case (no_commit cs s br ts t a b c d v)
  with process_candles_frame(2) [OF no_commit(4)] show ?thesis by simp
next
  case (commit_ok cs s br ts t a b c d v)
  with process_candles_spec(2,4) [OF commit_ok(4) commit_ok(10)] show ?thesis by simp
next
  case (commit_raises cs s br ts t a b c d v)
  with process_candles_spec(2,4) [OF commit_raises(4) commit_raises(10)] show ?thesis by simp
qed simp_all







section \<open>The reported range\<close>

lemma observe_page_nonempty:
  assumes "fetch_ohlcv env n cursor = Page cs" and "cs \<noteq> []"
  shows "observe_page env tf e (cursor, n, b, k) =
    (case first_beyond_end e (hd cs) of
       Inl x \<Rightarrow> Some ([], cursor + 86400000, Suc n, b, k)
     | Inr True \<Rightarrow> None
     | Inr False \<Rightarrow>
         Some (observed_in_page tf e cs,
           (if page_raises tf e cs then (cursor + 86400000, Suc n, Suc b, k)
            else (case last cs of
                    Malformed \<Rightarrow> (cursor + 86400000, Suc n, Suc b, k)
                  | Candle t _ _ _ _ _ \<Rightarrow>
                      if Suc b mod 10 = 0
                      then ((if commit_raises env k then t + 1 + 86400000 else t + 1),
                            Suc n, Suc b, Suc k)
                      else (t + 1, Suc n, Suc b, k)))))"
proof (cases cs)
  case Nil
  with assms show ?thesis by simp
next
  case (Cons first rest)
  from assms(1) show ?thesis
    unfolding Cons
    by (simp add: observe_page_def del: last.simps observed_in_page.simps page_raises.simps)
qed

text \<open>A session that needs a rollback keeps needing it for the rest of the loop.\<close>

lemma iteration_needs_rollback:
  assumes it: "backfill_iteration env tf sy e st = (ctl, st')"
      and nr: "needs_rollback (sess st)"
  shows "needs_rollback (sess st')"
  using it
proof (cases rule: backfill_iteration_cases)
  case (page_raises cs x s br ts)
  with nr process_candles_frame(3) [OF page_raises(4)] show ?thesis by simp
qed (use nr in simp_all)

lemma loop_needs_rollback:
  assumes "backfill_loop fuel env tf sy e st = Some st'" and "needs_rollback (sess st)"
  shows "needs_rollback (sess st')"
  using assms
proof (induction fuel arbitrary: st)
  case 0
  then show ?case by simp
next
  case (Suc fuel)
  obtain ctl st1 where it: "backfill_iteration env tf sy e st = (ctl, st1)"
    by (cases "backfill_iteration env tf sy e st") auto
  note n1 = iteration_needs_rollback [OF it Suc.prems(2)]
  show ?case
  proof (cases ctl)
    case Break
    with Suc.prems(1) it n1 show ?thesis by simp
  next
    case Continue
    with Suc.prems(1) it have "backfill_loop fuel env tf sy e st1 = Some st'" by simp
    from Suc.IH [OF this n1] show ?thesis .
  qed
qed

text \<open>A pass that leaves a usable session is the pass \<open>observe_page\<close> describes.\<close>

lemma iteration_observe:
  assumes it: "backfill_iteration env tf sy e st = (ctl, st')"
      and v: "\<not> needs_rollback (sess st')"
  shows "(observe_page env tf e (cursor_of st) = None \<longrightarrow>
            ctl = Break \<and> st' = st\<lparr>fetch_calls := Suc (fetch_calls st)\<rparr>) \<and>
         (\<forall>ts cur'. observe_page env tf e (cursor_of st) = Some (ts, cur') \<longrightarrow>
            ctl = Continue \<and> cursor_of st' = cur' \<and> all_timestamps st' = all_timestamps st @ ts)"
proof -
  have us: "\<not> needs_rollback (sess st)"
    using iteration_needs_rollback [OF it] v by blast
  from it show ?thesis
  proof (cases rule: backfill_iteration_cases)
    case fetch_raises
    then show ?thesis by (simp add: observe_page_def cursor_of_def)
  next
    case empty_page
    then show ?thesis by (simp add: observe_page_def cursor_of_def)
  next
    case (first_raises cs x)
    with observe_page_nonempty [OF first_raises(1,2), of tf e "batch_count st" "commit_calls (sess st)"]
    show ?thesis by (simp add: cursor_of_def)
  next
    case (reached_end cs)
    with observe_page_nonempty [OF reached_end(1,2), of tf e "batch_count st" "commit_calls (sess st)"]
    show ?thesis by (simp add: cursor_of_def)
  next
    case (page_raises cs x s br ts)
    with observe_page_nonempty [OF page_raises(1,2), of tf e "batch_count st" "commit_calls (sess st)"]
      process_candles_spec(1,2,4) [OF page_raises(4) us]
    show ?thesis by (simp add: cursor_of_def)
  next
    case (last_raises cs s br ts)
    with observe_page_nonempty [OF last_raises(1,2), of tf e "batch_count st" "commit_calls (sess st)"]
      process_candles_spec(1,2,4) [OF last_raises(4) us]
    show ?thesis by (simp add: cursor_of_def)
  next
    case (no_commit cs s br ts t a b c d v)
    with observe_page_nonempty [OF no_commit(1,2), of tf e "batch_count st" "commit_calls (sess st)"]
      process_candles_spec(1,2,4) [OF no_commit(4) us]
    show ?thesis by (simp add: cursor_of_def)
  next
    case (commit_ok cs s br ts t a b c d v)
    with observe_page_nonempty [OF commit_ok(1,2), of tf e "batch_count st" "commit_calls (sess st)"]
      process_candles_spec(1,2,4) [OF commit_ok(4) us]
    show ?thesis by (simp add: cursor_of_def)
  next
    case (commit_raises cs s br ts t a b c d v')
    with v show ?thesis by simp
  qed
qed

text \<open>The timestamps a run collects while its session stays usable are the observed ones,
  whatever the store holds.\<close>

lemma loop_observed:
  assumes "backfill_loop fuel env tf sy e st = Some st'" and "\<not> needs_rollback (sess st')"
  shows "\<exists>obs. observed fuel env tf e (cursor_of st) = Some obs \<and>
           all_timestamps st' = all_timestamps st @ obs"
  using assms
proof (induction fuel arbitrary: st)
  case 0
  then show ?case by simp
next
  case (Suc fuel)
  obtain ctl st1 where it: "backfill_iteration env tf sy e st = (ctl, st1)"
    by (cases "backfill_iteration env tf sy e st") auto
  show ?case
  proof (cases ctl)
    case Break
    with Suc.prems(1) it have eq: "st1 = st'" by simp
    note io = iteration_observe [OF it Suc.prems(2) [folded eq]]
    have n: "observe_page env tf e (cursor_of st) = None"
    proof (cases "observe_page env tf e (cursor_of st)")
      case None
      then show ?thesis .
    next
      case (Some p)
      obtain ts cur' where "p = (ts, cur')" by (cases p) auto
      with io Some Break show ?thesis by auto
    qed
    with io eq show ?thesis by simp
  next
    case Continue
    with Suc.prems(1) it have l: "backfill_loop fuel env tf sy e st1 = Some st'" by simp
    have v1: "\<not> needs_rollback (sess st1)"
      using loop_needs_rollback [OF l] Suc.prems(2) by blast
    note io = iteration_observe [OF it v1]
    from io Continue obtain ts cur' where
      ob: "observe_page env tf e (cursor_of st) = Some (ts, cur')"
      by (cases "observe_page env tf e (cursor_of st)") auto
    with io have c: "cursor_of st1 = cur'" "all_timestamps st1 = all_timestamps st @ ts"
      by blast+
    from Suc.IH [OF l Suc.prems(2)] c obtain rest where
      "observed fuel env tf e cur' = Some rest" "all_timestamps st' = all_timestamps st @ ts @ rest"
      by auto
    with ob show ?thesis by simp
  qed
qed

text \<open>
  Claim C6. When \<open>continuous_backfill_ohlcv\<close> returns a result, \<open>actual_start\<close> and
  \<open>actual_end\<close> are the least and the greatest of the timestamps the run observed, and the
  clock value when it observed none. The observed timestamps are computed from the
  gateway's answers alone, so a candle counts whether the store already held it or not.
\<close>

theorem range_is_observed_min_max:
  assumes "continuous_backfill_ohlcv fuel env symbol tf since0 e db
             = Some (Inr (n, actual_start, actual_end), db')"
  shows "\<exists>obs. observed fuel env tf e (since0, 0, 0, 0) = Some obs \<and>
           (obs = [] \<longrightarrow> actual_start = now env \<and> actual_end = now env) \<and>
           (obs \<noteq> [] \<longrightarrow> actual_start = Min (set obs) \<and> actual_end = Max (set obs))"
proof -
  let ?s = "session_maker db"
  from assms obtain sy where sy: "get_db_symbol env ?s symbol = Some sy"
    by (auto simp: continuous_backfill_ohlcv_def get_session_def backfill_body_def
        split: option.splits)
  from assms sy obtain st where
    l: "backfill_loop fuel env tf sy e (initial_state since0 ?s) = Some st"
    by (auto simp: continuous_backfill_ohlcv_def get_session_def backfill_body_def
        split: option.splits)
  from assms sy l have r:
    "(all_timestamps st = [] \<longrightarrow> actual_start = now env \<and> actual_end = now env) \<and>
     (all_timestamps st \<noteq> [] \<longrightarrow> actual_start = Min (set (all_timestamps st)) \<and>
        actual_end = Max (set (all_timestamps st)))"
    by (auto simp: continuous_backfill_ohlcv_def get_session_def backfill_body_def
        split: option.splits prod.splits bool.splits if_splits)
  from assms sy l have v: "\<not> needs_rollback (sess st)"
    by (auto simp: continuous_backfill_ohlcv_def get_session_def backfill_body_def commit_def
        split: if_splits)
  have c: "cursor_of (initial_state since0 ?s) = (since0, 0, 0, 0)"
    by (simp add: cursor_of_def initial_state_def session_maker_def)
  from loop_observed [OF l v] c
  have "observed fuel env tf e (since0, 0, 0, 0) = Some (all_timestamps st)"
    by (simp add: initial_state_def)
  with r show ?thesis by simp
qed

theorem range_is_observed_min_max_witness:
  "continuous_backfill_ohlcv 5 (example_env 2 (\<lambda>n. False)) ''BTC/USDT'' ''1h'' 0 None
      (snd (the (continuous_backfill_ohlcv 5 (example_env 2 (\<lambda>n. False)) ''BTC/USDT'' ''1h'' 0 None example_db)))
    = Some (Inr (0, 0, 3),
        snd (the (continuous_backfill_ohlcv 5 (example_env 2 (\<lambda>n. False)) ''BTC/USDT'' ''1h'' 0 None example_db))) \<and>
   observed 5 (example_env 2 (\<lambda>n. False)) ''1h'' None (0, 0, 0, 0) = Some [0, 1, 2, 3] \<and>
   (0::int) = Min (set [0, 1, 2, 3]) \<and> (3::int) = Max (set [0, 1, 2, 3])"
proof -
  let ?env = "example_env 2 (\<lambda>n. False)"
  let ?db = "snd (the (continuous_backfill_ohlcv 5 ?env ''BTC/USDT'' ''1h'' 0 None example_db))"
  have h: "continuous_backfill_ohlcv 5 ?env ''BTC/USDT'' ''1h'' 0 None ?db = Some (Inr (0, 0, 3), ?db)"
    by code_simp
  have o: "observed 5 ?env ''1h'' None (0, 0, 0, 0) = Some [0, 1, 2, 3]" by code_simp
  from range_is_observed_min_max [OF h] o h show ?thesis by simp
qed

section \<open>Idempotence\<close>

text \<open>While no commit raises, the session stays usable and what the open transaction
  sees only grows: every timestamp collected so far stays visible to the existence check,
  and the symbol and exchange tables are not touched.\<close>

lemma iteration_keeps_present:
  assumes ok: "\<forall>n. \<not> commit_raises env n"
      and it: "backfill_iteration env tf sy e st = (ctl, st')"
      and us: "\<not> needs_rollback (sess st)"
      and inv: "\<forall>t \<in> set (all_timestamps st). present tf sy (working (sess st)) t"
  shows "(\<forall>t \<in> set (all_timestamps st'). present tf sy (working (sess st')) t) \<and>
         symbols (working (sess st')) = symbols (working (sess st)) \<and>
         exchanges (working (sess st')) = exchanges (working (sess st)) \<and>
         \<not> needs_rollback (sess st')"
proof -
  have page: "(\<forall>t \<in> set ts. present tf sy (working s) t) \<and>
         symbols (working s) = symbols (working (sess st)) \<and>
         exchanges (working s) = exchanges (working (sess st)) \<and> \<not> needs_rollback s"
    if pc: "process_candles tf sy e cs (sess st, 0, all_timestamps st) = (r, s, br, ts)"
    for cs r s br ts
    using process_candles_present [OF pc] process_candles_spec(1,5,6,8) [OF pc us] inv us by auto
  from it show ?thesis
  proof (cases rule: backfill_iteration_cases)
    case fetch_raises
    with inv us show ?thesis by simp
  next
    case empty_page
    with inv us show ?thesis by simp
  next
    case (first_raises cs x)
    with inv us show ?thesis by simp
  next
    case (reached_end cs)
    with inv us show ?thesis by simp
  next
    case (page_raises cs x s br ts)
    with page [OF page_raises(4)] show ?thesis by simp
  next
    case (last_raises cs s br ts)
    with page [OF last_raises(4)] show ?thesis by simp
  next
    case (no_commit cs s br ts t a b c d v)
    with page [OF no_commit(4)] show ?thesis by simp
  next
    case (commit_ok cs s br ts t a b c d v)
    with page [OF commit_ok(4)] show ?thesis by simp
  next
    case (commit_raises cs s br ts t a b c d v)
    with ok show ?thesis by simp
  qed
qed

lemma loop_keeps_present:
  assumes ok: "\<forall>n. \<not> commit_raises env n"
      and l: "backfill_loop fuel env tf sy e st = Some st'"
      and us: "\<not> needs_rollback (sess st)"
      and inv: "\<forall>t \<in> set (all_timestamps st). present tf sy (working (sess st)) t"
  shows "(\<forall>t \<in> set (all_timestamps st'). present tf sy (working (sess st')) t) \<and>
         symbols (working (sess st')) = symbols (working (sess st)) \<and>
         exchanges (working (sess st')) = exchanges (working (sess st)) \<and>
         \<not> needs_rollback (sess st')"
  using l us inv
proof (induction fuel arbitrary: st)
  case 0
  then show ?case by simp
next
  case (Suc fuel)
  obtain ctl st1 where it: "backfill_iteration env tf sy e st = (ctl, st1)"
    by (cases "backfill_iteration env tf sy e st") auto
  note k = iteration_keeps_present [OF ok it Suc.prems(2,3)]
  show ?case
  proof (cases ctl)
    case Break
    with Suc.prems(1) it k show ?thesis by simp
  next
    case Continue
    with Suc.prems(1) it have "backfill_loop fuel env tf sy e st1 = Some st'" by simp
    from Suc.IH [OF this] k show ?thesis by simp
  qed
qed

text \<open>A pass over a page whose observed timestamps are all in the store already stages
  nothing and counts nothing.\<close>

lemma iteration_all_present:
  assumes ok: "\<forall>n. \<not> commit_raises env n"
      and it: "backfill_iteration env tf sy e st = (ctl, st')"
      and ob: "observe_page env tf e (cursor_of st) = Some (ts, cur')"
      and pr: "\<forall>t \<in> set ts. present tf sy (working (sess st)) t"
      and us: "\<not> needs_rollback (sess st)"
  shows "working (sess st') = working (sess st) \<and> total_records st' = total_records st \<and>
         (durable (sess st') = durable (sess st) \<or> durable (sess st') = working (sess st)) \<and>
         \<not> needs_rollback (sess st')"
proof -
  have page: "s = sess st \<and> br = 0"
    if f: "fetch_ohlcv env (fetch_calls st) (since st) = Page cs" and ne: "cs \<noteq> []"
      and fb: "first_beyond_end e (hd cs) = Inr False"
      and pc: "process_candles tf sy e cs (sess st, 0, all_timestamps st) = (r, s, br, xs)"
    for cs r s br xs
  proof -
    from observe_page_nonempty [OF f ne, of tf e "batch_count st" "commit_calls (sess st)"] fb ob
    have "ts = observed_in_page tf e cs" by (simp add: cursor_of_def)
    with pr have "\<forall>t \<in> set (observed_in_page tf e cs). present tf sy (working (sess st)) t"
      by simp
    from process_candles_all_present [OF this us, of 0 "all_timestamps st"] pc
    show ?thesis by auto
  qed
  from it show ?thesis
  proof (cases rule: backfill_iteration_cases)
    case (page_raises cs x s br xs)
    with page [OF page_raises(1-4)] us show ?thesis by simp
  next
    case (last_raises cs s br xs)
    with page [OF last_raises(1-4)] us show ?thesis by simp
  next
    case (no_commit cs s br xs t a b c d v)
    with page [OF no_commit(1-4)] us show ?thesis by simp
  next
    case (commit_ok cs s br xs t a b c d v)
    with page [OF commit_ok(1-4)] us show ?thesis by simp
  next
    case (commit_raises cs s br xs t a b c d v)
    with ok show ?thesis by simp
  qed (use us in simp_all)
qed

lemma iteration_stays_usable:
  assumes ok: "\<forall>n. \<not> commit_raises env n"
      and it: "backfill_iteration env tf sy e st = (ctl, st')"
      and us: "\<not> needs_rollback (sess st)"
  shows "\<not> needs_rollback (sess st')"
  using it
proof (cases rule: backfill_iteration_cases)
  case (page_raises cs x s br ts)
  with us process_candles_frame(3) [OF page_raises(4)] show ?thesis by simp
next
  case (last_raises cs s br ts)
  with us process_candles_frame(3) [OF last_raises(4)] show ?thesis by simp
next
  case (no_commit cs s br ts t a b c d v)
  with us process_candles_frame(3) [OF no_commit(4)] show ?thesis by simp
next
  case (commit_ok cs s br ts t a b c d v)
  with us process_candles_frame(3) [OF commit_ok(4)] show ?thesis by simp
next
  case (commit_raises cs s br ts t a b c d v)
  with ok show ?thesis by simp
qed (use us in simp_all)

lemma loop_all_present:
  assumes ok: "\<forall>n. \<not> commit_raises env n"
      and ob: "observed fuel env tf e (cursor_of st) = Some obs"
      and pr: "\<forall>t \<in> set obs. present tf sy (working (sess st)) t"
      and us: "\<not> needs_rollback (sess st)"
  shows "\<exists>st'. backfill_loop fuel env tf sy e st = Some st' \<and>
           working (sess st') = working (sess st) \<and> total_records st' = total_records st \<and>
           all_timestamps st' = all_timestamps st @ obs \<and> \<not> needs_rollback (sess st') \<and>
           (durable (sess st') = durable (sess st) \<or> durable (sess st') = working (sess st))"
  using ob pr us
proof (induction fuel arbitrary: st obs)
  case 0
  then show ?case by simp
next
  case (Suc fuel)
  obtain ctl st1 where it: "backfill_iteration env tf sy e st = (ctl, st1)"
    by (cases "backfill_iteration env tf sy e st") auto
  note u1 = iteration_stays_usable [OF ok it Suc.prems(3)]
  note io = iteration_observe [OF it u1]
  show ?case
  proof (cases "observe_page env tf e (cursor_of st)")
    case None
    with io have "ctl = Break" "st1 = st\<lparr>fetch_calls := Suc (fetch_calls st)\<rparr>" by simp_all
    with it None Suc.prems(1,3) show ?thesis by simp
  next
    case (Some p)
    obtain ts cur' where p: "p = (ts, cur')" by (cases p) auto
    from io Some p have "ctl = Continue \<and> cursor_of st1 = cur' \<and>
      all_timestamps st1 = all_timestamps st @ ts" by blast
    then have c: "ctl = Continue" "cursor_of st1 = cur'"
      "all_timestamps st1 = all_timestamps st @ ts" by simp_all
    from Suc.prems(1) Some p obtain rest where
      rest: "observed fuel env tf e cur' = Some rest" and obs: "obs = ts @ rest"
      by auto
    from Suc.prems(2) obs have here: "\<forall>t \<in> set ts. present tf sy (working (sess st)) t" by simp
    note a = iteration_all_present [OF ok it Some [unfolded p] here Suc.prems(3)]
    from Suc.prems(2) obs a
    have later: "\<forall>t \<in> set rest. present tf sy (working (sess st1)) t" by simp
    from Suc.IH [of st1 rest] rest c later u1 obtain st' where
      "backfill_loop fuel env tf sy e st1 = Some st'"
      "working (sess st') = working (sess st1)" "total_records st' = total_records st1"
      "all_timestamps st' = all_timestamps st1 @ rest" "\<not> needs_rollback (sess st')"
      "durable (sess st') = durable (sess st1) \<or> durable (sess st') = working (sess st1)"
      by auto
    with it c a obs show ?thesis by auto
  qed
qed

lemma observe_page_now:
  "observe_page (env\<lparr>now := later\<rparr>) tf e cur = observe_page env tf e cur"
  by (simp add: observe_page_def
      split: prod.split fetch_result.split list.split sum.split bool.split raw_candle.split)

lemma observed_now: "observed fuel (env\<lparr>now := later\<rparr>) tf e cur = observed fuel env tf e cur"
  by (induction fuel arbitrary: cur) (simp_all add: observe_page_now split: option.split)

text \<open>
  Claim C1. When no commit raises and a first run has returned a result, leaving the
  database \<open>db'\<close>, a second run with the same arguments against the same gateway (at any
  later clock value) finds every candle it observes in the store: it returns with
  \<open>records_written = 0\<close> and leaves the database exactly \<open>db'\<close>.
\<close>

theorem backfill_idempotent:
  assumes ok: "\<forall>n. \<not> commit_raises env n"
      and run: "continuous_backfill_ohlcv fuel env symbol tf since0 e db = Some (Inr r, db')"
  shows "\<exists>a b. continuous_backfill_ohlcv fuel (env\<lparr>now := later\<rparr>) symbol tf since0 e db'
                 = Some (Inr (0, a, b), db')"
proof -
  let ?s = "session_maker db" and ?s' = "session_maker db'" and ?env = "env\<lparr>now := later\<rparr>"
  from run obtain sy where sy: "get_db_symbol env ?s symbol = Some sy"
    by (auto simp: continuous_backfill_ohlcv_def get_session_def backfill_body_def
        split: option.splits)
  from run sy obtain st where
    l: "backfill_loop fuel env tf sy e (initial_state since0 ?s) = Some st"
    by (auto simp: continuous_backfill_ohlcv_def get_session_def backfill_body_def
        split: option.splits)
  from run sy l ok have db': "db' = working (sess st)" and v: "\<not> needs_rollback (sess st)"
    by (auto simp: continuous_backfill_ohlcv_def get_session_def backfill_body_def commit_def
        split: if_splits)
  have u0: "\<not> needs_rollback (sess (initial_state since0 ?s))"
    "\<not> needs_rollback (sess (initial_state since0 ?s'))"
    by (simp_all add: initial_state_def session_maker_def)
  have "\<forall>t \<in> set (all_timestamps (initial_state since0 ?s)).
      present tf sy (working (sess (initial_state since0 ?s))) t"
    by (simp add: initial_state_def)
  from loop_keeps_present [OF ok l u0(1) this]
  have pres: "\<forall>t \<in> set (all_timestamps st). present tf sy db' t"
    and tabs: "symbols db' = symbols db" "exchanges db' = exchanges db"
    by (simp_all add: db' initial_state_def session_maker_def)
  have c: "cursor_of (initial_state since0 ?s) = (since0, 0, 0, 0)"
    "cursor_of (initial_state since0 ?s') = (since0, 0, 0, 0)"
    by (simp_all add: cursor_of_def initial_state_def session_maker_def)
  from loop_observed [OF l v] c
  have "observed fuel env tf e (since0, 0, 0, 0) = Some (all_timestamps st)"
    by (simp add: initial_state_def)
  then have ob: "observed fuel ?env tf e (cursor_of (initial_state since0 ?s')) = Some (all_timestamps st)"
    by (simp add: observed_now c)
  have ok': "\<forall>n. \<not> commit_raises ?env n" using ok by simp
  have pr: "\<forall>t \<in> set (all_timestamps st).
      present tf sy (working (sess (initial_state since0 ?s'))) t"
    using pres by (simp add: initial_state_def session_maker_def)
  from loop_all_present [OF ok' ob pr u0(2)] obtain st' where
    l': "backfill_loop fuel ?env tf sy e (initial_state since0 ?s') = Some st'" and
    w: "working (sess st') = db'" and t: "total_records st' = 0" and
    v': "\<not> needs_rollback (sess st')"
    by (auto simp: initial_state_def session_maker_def)
  have sy': "get_db_symbol ?env ?s' symbol = Some sy"
    using sy tabs by (simp add: get_db_symbol_def get_exchange_id_def session_maker_def)
  from sy' l' ok w t v' show ?thesis
    by (simp add: continuous_backfill_ohlcv_def get_session_def backfill_body_def commit_def)
qed

theorem backfill_idempotent_witness:
  "map_option fst (continuous_backfill_ohlcv 20 (example_env 12 (\<lambda>n. False)) ''BTC/USDT'' ''1h'' 0 None example_db)
     = Some (Inr (24, 0, 23)) \<and>
   (\<exists>a b. continuous_backfill_ohlcv 20 ((example_env 12 (\<lambda>n. False))\<lparr>now := 100\<rparr>) ''BTC/USDT'' ''1h'' 0 None
       (snd (the (continuous_backfill_ohlcv 20 (example_env 12 (\<lambda>n. False)) ''BTC/USDT'' ''1h'' 0 None example_db)))
     = Some (Inr (0, a, b),
         snd (the (continuous_backfill_ohlcv 20 (example_env 12 (\<lambda>n. False)) ''BTC/USDT'' ''1h'' 0 None example_db))))"
proof -
  let ?env = "example_env 12 (\<lambda>n. False)"
  let ?run = "continuous_backfill_ohlcv 20 ?env ''BTC/USDT'' ''1h'' 0 None example_db"
  have h1: "\<forall>n. \<not> commit_raises ?env n" by (simp add: example_env_def)
  have f: "map_option fst ?run = Some (Inr (24, 0, 23))" by code_simp
  then have h2: "?run = Some (Inr (24, 0, 23), snd (the ?run))"
    by (cases ?run) auto
  from backfill_idempotent [OF h1 h2, of 100] f show ?thesis by simp
qed

section \<open>The end bound\<close>

text \<open>
  Claim C2 says that with an end bound set no candle at or after the bound is staged or
  stored. The source tests \<open>end_timestamp\<close> for truth, so the bound \<open>0\<close>
  (\<open>end_date = '1970-01-01T00:00:00Z'\<close>) counts as no bound at all: this run, bounded by
  \<open>0\<close>, stores the candles with timestamps \<open>0\<close> and \<open>1\<close>.
\<close>

theorem end_bound_zero_not_respected:
  "map_option (map o_timestamp \<circ> ohlcv \<circ> snd)
     (continuous_backfill_ohlcv 5 (example_env 1 (\<lambda>n. False)) ''BTC/USDT'' ''1h'' 0 (Some 0) example_db)
     = Some [0, 1]"
  by code_simp

text \<open>
  Claim C7 says that the loop ends exactly when the page is empty or the end bound is set
  and the first candle has reached it, and that such a page is not processed. With the
  bound \<open>0\<close> the loop goes on past a page whose first candle, at \<open>5\<close>, has reached the
  bound, and records both of its candles.
\<close>

theorem end_bound_zero_does_not_stop:
  "fetch_ohlcv (example_env 1 (\<lambda>n. False)) 0 5 = Page [candle_at 5, candle_at 6] \<and>
   fst (backfill_iteration (example_env 1 (\<lambda>n. False)) ''1h'' example_symbol (Some 0)
          (initial_state 5 (session_maker example_db))) = Continue \<and>
   all_timestamps (snd (backfill_iteration (example_env 1 (\<lambda>n. False)) ''1h'' example_symbol (Some 0)
          (initial_state 5 (session_maker example_db)))) = [5, 6]"
  by code_simp

text \<open>With an end bound other than \<open>0\<close> the loop does what the bound asks.\<close>

lemma iteration_leaves_iff:
  assumes "backfill_iteration env tf sy e st = (ctl, st')"
  shows "ctl = Break \<longleftrightarrow>
           fetch_ohlcv env (fetch_calls st) (since st) = Page [] \<or>
           (\<exists>cs. fetch_ohlcv env (fetch_calls st) (since st) = Page cs \<and> cs \<noteq> [] \<and>
                 first_beyond_end e (hd cs) = Inr True)"
  using assms by (cases rule: backfill_iteration_cases) auto

lemma iteration_leaves_unprocessed:
  assumes "backfill_iteration env tf sy e st = (Break, st')"
  shows "st' = st\<lparr>fetch_calls := Suc (fetch_calls st)\<rparr>"
  using assms by (cases rule: backfill_iteration_cases) auto

lemma first_beyond_end_nonzero:
  "b \<noteq> 0 \<Longrightarrow> first_beyond_end (Some b) (Candle t x1 x2 x3 x4 x5) = Inr (b \<le> t)"
  by (simp add: first_beyond_end_def)

lemma iteration_rows_before_end:
  assumes it: "backfill_iteration env tf sy (Some b) st = (ctl, st')"
      and nz: "b \<noteq> 0"
      and inv: "\<forall>x \<in> set (ohlcv (working (sess st))) \<union> set (ohlcv (durable (sess st))).
                  x \<in> set old \<or> o_timestamp x < b"
  shows "\<forall>x \<in> set (ohlcv (working (sess st'))) \<union> set (ohlcv (durable (sess st'))).
                  x \<in> set old \<or> o_timestamp x < b"
proof -
  have page: "\<forall>x \<in> set (ohlcv (working s)) \<union> set (ohlcv (durable s)).
                  x \<in> set old \<or> o_timestamp x < b"
    if pc: "process_candles tf sy (Some b) cs (sess st, 0, all_timestamps st) = (r, s, br, ts)"
    for cs r s br ts
  proof -
    from process_candles_frame(6) [OF pc] obtain new where
      "ohlcv (working s) = ohlcv (working (sess st)) @ new"
      "\<forall>x \<in> set new. \<not> beyond_end (Some b) (o_timestamp x)" by auto
    with inv nz process_candles_frame(1) [OF pc] show ?thesis
      by (auto simp: beyond_end_def)
  qed
  from it show ?thesis
  proof (cases rule: backfill_iteration_cases)
    case (page_raises cs x s br ts)
    with page [OF page_raises(4)] show ?thesis by simp
  next
    case (last_raises cs s br ts)
    with page [OF last_raises(4)] show ?thesis by simp
  next
    case (no_commit cs s br ts t a b c d v)
    with page [OF no_commit(4)] show ?thesis by simp
  next
    case (commit_ok cs s br ts t a b c d v)
    with page [OF commit_ok(4)] show ?thesis by simp
  next
    case (commit_raises cs s br ts t a b c d v)
    with page [OF commit_raises(4)] show ?thesis by simp
  qed (use inv in simp_all)
qed

lemma loop_rows_before_end:
  assumes l: "backfill_loop fuel env tf sy (Some b) st = Some st'"
      and nz: "b \<noteq> 0"
      and inv: "\<forall>x \<in> set (ohlcv (working (sess st))) \<union> set (ohlcv (durable (sess st))).
                  x \<in> set old \<or> o_timestamp x < b"
  shows "\<forall>x \<in> set (ohlcv (working (sess st'))) \<union> set (ohlcv (durable (sess st'))).
                  x \<in> set old \<or> o_timestamp x < b"
  using l inv
proof (induction fuel arbitrary: st)
  case 0
  then show ?case by simp
next
  case (Suc fuel)
  obtain ctl st1 where it: "backfill_iteration env tf sy (Some b) st = (ctl, st1)"
    by (cases "backfill_iteration env tf sy (Some b) st") auto
  note k = iteration_rows_before_end [OF it nz Suc.prems(2)]
  show ?case
  proof (cases ctl)
    case Break
    with Suc.prems(1) it k show ?thesis by simp
  next
    case Continue
    with Suc.prems(1) it have "backfill_loop fuel env tf sy (Some b) st1 = Some st'" by simp
    from Suc.IH [OF this k] show ?thesis .
  qed
qed

lemma nonzero_end_bound_respected:
  assumes run: "continuous_backfill_ohlcv fuel env symbol tf since0 (Some b) db = Some (r, db')"
      and nz: "b \<noteq> 0"
  shows "\<forall>x \<in> set (ohlcv db'). x \<in> set (ohlcv db) \<or> o_timestamp x < b"
proof (cases "get_db_symbol env (session_maker db) symbol")
  case None
  with run show ?thesis
    by (simp add: continuous_backfill_ohlcv_def get_session_def backfill_body_def rollback_def
        session_maker_def)
next
  case (Some sy)
  let ?s = "session_maker db"
  from run Some obtain st where
    l: "backfill_loop fuel env tf sy (Some b) (initial_state since0 ?s) = Some st"
    by (auto simp: continuous_backfill_ohlcv_def get_session_def backfill_body_def
        split: option.splits)
  have "\<forall>x \<in> set (ohlcv (working (sess (initial_state since0 ?s)))) \<union>
              set (ohlcv (durable (sess (initial_state since0 ?s)))).
          x \<in> set (ohlcv db) \<or> o_timestamp x < b"
    by (simp add: initial_state_def session_maker_def)
  note inv = loop_rows_before_end [OF l nz this]
  from run Some l have "db' = working (sess st) \<or> db' = durable (sess st)"
    by (auto simp: continuous_backfill_ohlcv_def get_session_def backfill_body_def commit_def
        rollback_def split: if_splits)
  with inv show ?thesis by auto
qed

end
